theory Spec2Isabelle
  imports Complex_Main
begin

section \<open>Physical units: millimetres and pixels\<close>

text \<open>
  Python floats are modelled by the reals they denote. Python's \<open>round\<close> on a float
  rounds to the nearest integer and resolves a tie towards the even neighbour.
\<close>

definition py_round :: "real \<Rightarrow> int" where
  "py_round x =
     (let f = \<lfloor>x\<rfloor>; d = x - of_int f
      in if d < 1 / 2 then f
         else if 1 / 2 < d then f + 1
         else if even f then f else f + 1)"

definition MM_PER_INCH :: real where
  "MM_PER_INCH = 254 / 10"

definition mm_to_px :: "real \<Rightarrow> int \<Rightarrow> int" where
  "mm_to_px mm dpi = py_round (mm * of_int dpi / MM_PER_INCH)"

definition px_to_mm :: "int \<Rightarrow> int \<Rightarrow> real" where
  "px_to_mm px dpi =
     (if dpi \<le> 0 \<or> px \<le> 0 then 0
      else (of_int px / of_int dpi) * MM_PER_INCH)"

section \<open>Scale-adaptive radius\<close>

text \<open>
  \<open>scale_radius\<close> follows the source statement by statement. The optional keyword
  argument \<open>clamp\<close> is an \<open>int option\<close>; Python's \<open>**\<close> on a float base that is at
  least 1 is the real power \<open>powr\<close>.
\<close>

definition scale_radius :: "int \<Rightarrow> real \<Rightarrow> real \<Rightarrow> int option \<Rightarrow> int" where
  "scale_radius base_radius scale_factor exponent clamp =
     (if base_radius \<le> 0 then 0
      else
        let effective_scale = max scale_factor 1;
            scaled = py_round (of_int base_radius * (effective_scale powr exponent));
            scaled' = (case clamp of None \<Rightarrow> scaled | Some c \<Rightarrow> min scaled c)
        in max 1 scaled')"

text \<open>
  The formula as the specification words it: the rounded product, clamped to the optional
  ceiling, floored at 1 if the base is positive, else 0.
\<close>

definition ScaleRadius_spec :: "int \<Rightarrow> real \<Rightarrow> real \<Rightarrow> int option \<Rightarrow> int" where
  "ScaleRadius_spec base scaleFactor exponent ceiling_opt =
     (let rounded = py_round (of_int base * (max scaleFactor 1) powr exponent);
          clamped = (case ceiling_opt of None \<Rightarrow> rounded | Some c \<Rightarrow> min rounded c)
      in if 0 < base then max 1 clamped else 0)"

section \<open>Images\<close>

text \<open>
  A Pillow image is a list of rows. A mode \<open>L\<close> image holds samples 0..255, a mode \<open>1\<close>
  image holds booleans (\<open>True\<close> is the sample 255, foreground).
\<close>

type_synonym gray = "nat list list"
type_synonym mask = "bool list list"

definition width :: "'a list list \<Rightarrow> nat" where
  "width img = (case img of [] \<Rightarrow> 0 | r # _ \<Rightarrow> length r)"

definition height :: "'a list list \<Rightarrow> nat" where
  "height img = length img"

definition convert_L :: "mask \<Rightarrow> gray" where
  "convert_L m = map (map (\<lambda>b. if b then 255 else 0)) m"

text \<open>
  \<open>ImageStat.Stat\<close>: sum, pixel count and mean of the single band. The mean of an empty
  region is a \<open>ZeroDivisionError\<close> in Pillow; every caller below asks for the mean of a
  region that it has found non-empty.
\<close>

definition stat_sum :: "gray \<Rightarrow> nat" where
  "stat_sum img = sum_list (map sum_list img)"

definition stat_count :: "gray \<Rightarrow> nat" where
  "stat_count img = sum_list (map length img)"

definition stat_mean :: "gray \<Rightarrow> real" where
  "stat_mean img = real (stat_sum img) / real (stat_count img)"

text \<open>\<open>Image.crop\<close>: the samples of the box; a position outside the image reads 0.\<close>

definition getpixel0 :: "gray \<Rightarrow> int \<Rightarrow> int \<Rightarrow> nat" where
  "getpixel0 img x y =
     (if 0 \<le> x \<and> x < int (width img) \<and> 0 \<le> y \<and> y < int (height img)
      then img ! nat y ! nat x else 0)"

definition crop :: "gray \<Rightarrow> int \<times> int \<times> int \<times> int \<Rightarrow> gray" where
  "crop img box =
     (case box of (x0, y0, x1, y1) \<Rightarrow>
        map (\<lambda>y. map (\<lambda>x. getpixel0 img x y) [x0..x1 - 1]) [y0..y1 - 1])"

record MaskResult =
  paper :: mask
  filled :: mask
  holes :: mask
  outline :: mask

section \<open>Pixel access and ImageChops\<close>

text \<open>
  A pixel read at a position outside the buffer is an \<open>IndexError\<close> in Pillow; \<open>getpixel\<close>
  returns \<open>None\<close> there. Every caller below guards its coordinates first, as the source
  does, and \<open>setpixel\<close> is only applied at a position that a read has found inside.
\<close>

definition getpixel :: "'a list list \<Rightarrow> int \<Rightarrow> int \<Rightarrow> 'a option" where
  "getpixel img x y =
     (if 0 \<le> x \<and> 0 \<le> y \<and> nat y < length img \<and> nat x < length (img ! nat y)
      then Some (img ! nat y ! nat x) else None)"

definition setpixel :: "'a list list \<Rightarrow> int \<Rightarrow> int \<Rightarrow> 'a \<Rightarrow> 'a list list" where
  "setpixel img x y v = img[nat y := (img ! nat y)[nat x := v]]"

definition new_image :: "nat \<Rightarrow> nat \<Rightarrow> 'a \<Rightarrow> 'a list list" where
  "new_image w h v = replicate h (replicate w v)"

definition tabulate :: "nat \<Rightarrow> nat \<Rightarrow> (nat \<Rightarrow> nat \<Rightarrow> 'a) \<Rightarrow> 'a list list" where
  "tabulate w h f = map (\<lambda>y. map (\<lambda>x. f x y) [0..<w]) [0..<h]"

definition point :: "('a \<Rightarrow> 'b) \<Rightarrow> 'a list list \<Rightarrow> 'b list list" where
  "point f img = map (map f) img"

text \<open>
  The binary operations of \<open>ImageChops\<close> work on the common top-left part of their two
  operands; on images of one size that is the whole image.
\<close>

definition logical_and :: "mask \<Rightarrow> mask \<Rightarrow> mask" where
  "logical_and a b = map2 (map2 (\<and>)) a b"

definition logical_or :: "mask \<Rightarrow> mask \<Rightarrow> mask" where
  "logical_or a b = map2 (map2 (\<or>)) a b"

definition invert :: "mask \<Rightarrow> mask" where
  "invert a = map (map Not) a"

definition subtract :: "gray \<Rightarrow> gray \<Rightarrow> gray" where
  "subtract a b = map2 (map2 (-)) a b"

text \<open>\<open>getbbox\<close> is \<open>None\<close> exactly when no pixel is set.\<close>

definition has_bbox :: "mask \<Rightarrow> bool" where
  "has_bbox m = list_ex (list_ex id) m"

definition count_px :: "('a \<Rightarrow> bool) \<Rightarrow> 'a list list \<Rightarrow> nat" where
  "count_px P img = sum_list (map (\<lambda>row. length (filter P row)) img)"

text \<open>
  The foreground test of a mask at a position; a position outside the mask is not
  foreground.
\<close>

definition px :: "mask \<Rightarrow> nat \<Rightarrow> nat \<Rightarrow> bool" where
  "px m x y = (y < length m \<and> x < length (m ! y) \<and> m ! y ! x)"

text \<open>
  The shape of an image is the list of its row lengths; a well-formed image is
  rectangular: every row has the width of the image.
\<close>

definition shape :: "'a list list \<Rightarrow> nat list" where
  "shape img = map length img"

definition rect :: "'a list list \<Rightarrow> bool" where
  "rect img = list_all (\<lambda>row. length row = width img) img"

text \<open>One mask is below another when they have one shape and every set pixel of the first is set in the second.\<close>

definition le_mask :: "mask \<Rightarrow> mask \<Rightarrow> bool" where
  "le_mask a b = list_all2 (list_all2 (\<lambda>p q. p \<longrightarrow> q)) a b"

section \<open>Rank filters\<close>

text \<open>
  \<open>ImageFilter.MaxFilter\<close> and \<open>MinFilter\<close> pad the image by \<open>size // 2\<close> replicated edge
  pixels and take the maximum or minimum of each \<open>size \<times> size\<close> window. Reading the padded
  image at an offset is reading the image at the clamped position.
\<close>

definition clamp_index :: "nat \<Rightarrow> int \<Rightarrow> nat" where
  "clamp_index n i = nat (max 0 (min (int n - 1) i))"

definition offsets :: "nat \<Rightarrow> int list" where
  "offsets k = map (\<lambda>i. int i - int k) [0..<2 * k + 1]"

definition window :: "'a list list \<Rightarrow> nat \<Rightarrow> nat \<Rightarrow> nat \<Rightarrow> 'a list" where
  "window img ksize x y =
     concat (map (\<lambda>dy. map (\<lambda>dx.
         img ! clamp_index (height img) (int y + dy) ! clamp_index (width img) (int x + dx))
       (offsets (ksize div 2))) (offsets (ksize div 2)))"

definition MaxFilter :: "nat \<Rightarrow> gray \<Rightarrow> gray" where
  "MaxFilter ksize img =
     tabulate (width img) (height img) (\<lambda>x y. fold max (window img ksize x y) 0)"

definition MinFilter :: "nat \<Rightarrow> gray \<Rightarrow> gray" where
  "MinFilter ksize img =
     tabulate (width img) (height img) (\<lambda>x y. fold min (window img ksize x y) 255)"

text \<open>
  The window of a rank filter in one coordinate: the positions read around \<open>i\<close> in a
  row or column of length \<open>n\<close>. \<open>dilation\<close> and \<open>erosion\<close> are the maximum and minimum
  filters on booleans; they serve to state what the filters compute on a binary mask.
\<close>

definition nbhd :: "nat \<Rightarrow> nat \<Rightarrow> nat \<Rightarrow> nat list" where
  "nbhd n r i = map (\<lambda>d. clamp_index n (int i + d)) (offsets r)"

definition dilation :: "nat \<Rightarrow> mask \<Rightarrow> mask" where
  "dilation r m =
     tabulate (width m) (height m) (\<lambda>x y.
       list_ex (\<lambda>y'. list_ex (\<lambda>x'. m ! y' ! x') (nbhd (width m) r x)) (nbhd (height m) r y))"

definition erosion :: "nat \<Rightarrow> mask \<Rightarrow> mask" where
  "erosion r m =
     tabulate (width m) (height m) (\<lambda>x y.
       list_all (\<lambda>y'. list_all (\<lambda>x'. m ! y' ! x') (nbhd (width m) r x)) (nbhd (height m) r y))"

section \<open>Morphology primitives\<close>

definition apply_closing :: "mask \<Rightarrow> int \<Rightarrow> mask" where
  "apply_closing m radius =
     (if radius \<le> 0 then m
      else
        let ksize = nat (max 3 (2 * radius + 1));
            mask_l = convert_L m;
            mask_l1 = MaxFilter ksize mask_l;
            mask_l2 = MinFilter ksize mask_l1
        in point (\<lambda>v. v \<ge> 128) mask_l2)"

text \<open>
  \<open>extract_outline\<close> is called on mode \<open>1\<close> masks, where \<open>convert("1")\<close> is a copy.
  \<open>eroded_bin\<close> is the local of that name: the erosion of the mask, binarized.
\<close>

definition eroded_bin :: "mask \<Rightarrow> int \<Rightarrow> mask" where
  "eroded_bin m radius =
     (let radius' = (if radius < 1 then 1 else radius);
          mask_bin = m;
          mask_l = convert_L mask_bin;
          ksize = nat (max 3 (2 * radius' + 1));
          eroded = MinFilter ksize mask_l
      in point (\<lambda>v. v \<ge> 128) eroded)"

definition extract_outline :: "mask \<Rightarrow> int \<Rightarrow> mask" where
  "extract_outline m radius =
     (let mask_bin = m
      in logical_and mask_bin (invert (eroded_bin m radius)))"

section \<open>Flood fill\<close>

text \<open>
  The library primitive \<open>ImageDraw.floodfill(image, xy, value, thresh=0)\<close> of Pillow,
  with no border colour: the seed's colour is the background; if the seed already has the
  fill value nothing happens; otherwise the seed is painted and the fill spreads in rounds
  over the 4-neighbours whose colour equals the background. \<open>visit\<close> is the body of the
  inner loop for one neighbour \<open>(s, t)\<close>; the sets \<open>edge\<close>, \<open>full_edge\<close> and \<open>new_edge\<close> are
  lists without order. The loop is entered with a fill value that differs from the
  background, which \<open>flood_loop\<close> repeats in its guard.
\<close>

definition visit ::
  "nat \<Rightarrow> nat \<Rightarrow> int \<times> int \<Rightarrow> gray \<times> (int \<times> int) list \<times> (int \<times> int) list
     \<Rightarrow> gray \<times> (int \<times> int) list \<times> (int \<times> int) list" where
  "visit background val st acc =
     (case (st, acc) of ((s, t), (img, full_edge, new_edge)) \<Rightarrow>
        if (s, t) \<in> set full_edge \<or> s < 0 \<or> t < 0 then acc
        else
          (case getpixel img s t of
             None \<Rightarrow> acc
           | Some p \<Rightarrow>
               if p = background
               then (setpixel img s t val, List.insert (s, t) full_edge,
                     List.insert (s, t) new_edge)
               else (img, List.insert (s, t) full_edge, new_edge)))"

definition flood_round ::
  "nat \<Rightarrow> nat \<Rightarrow> (int \<times> int) list \<Rightarrow> gray \<times> (int \<times> int) list \<times> (int \<times> int) list
     \<Rightarrow> gray \<times> (int \<times> int) list \<times> (int \<times> int) list" where
  "flood_round background val edge acc =
     fold (\<lambda>(x, y). fold (visit background val) [(x + 1, y), (x - 1, y), (x, y + 1), (x, y - 1)])
       edge acc"

function flood_loop ::
  "nat \<Rightarrow> nat \<Rightarrow> gray \<Rightarrow> (int \<times> int) list \<Rightarrow> (int \<times> int) list \<Rightarrow> gray" where
  "flood_loop background val img full_edge edge =
     (if edge = [] \<or> val = background then img
      else
        (case flood_round background val edge (img, full_edge, []) of
           (img', full_edge', new_edge) \<Rightarrow> flood_loop background val img' edge new_edge))"
  by pat_completeness auto

definition floodfill :: "gray \<Rightarrow> int \<times> int \<Rightarrow> nat \<Rightarrow> gray" where
  "floodfill im xy val =
     (case xy of (x, y) \<Rightarrow>
        (case getpixel im x y of
           None \<Rightarrow> im
         | Some background \<Rightarrow>
             if val = background then im
             else flood_loop background val (setpixel im x y val) [] [(x, y)]))"

text \<open>
  The breadth-first fallback of the repository. \<open>enqueue\<close> is the local function of that
  name; the queue is a list, appended at the end and popped at the front.
\<close>

definition enqueue ::
  "mask \<Rightarrow> int \<Rightarrow> int \<Rightarrow> int \<times> int \<Rightarrow> mask \<times> (int \<times> int) list \<Rightarrow> mask \<times> (int \<times> int) list" where
  "enqueue blocked w h xy st =
     (case (xy, st) of ((x, y), (outside, q)) \<Rightarrow>
        if 0 \<le> x \<and> x < w \<and> 0 \<le> y \<and> y < h
           \<and> getpixel blocked x y = Some False \<and> getpixel outside x y = Some False
        then (setpixel outside x y True, q @ [(x, y)])
        else (outside, q))"

function bfs_loop :: "mask \<Rightarrow> int \<Rightarrow> int \<Rightarrow> mask \<Rightarrow> (int \<times> int) list \<Rightarrow> mask" where
  "bfs_loop blocked w h outside [] = outside"
| "bfs_loop blocked w h outside ((x, y) # rest) =
     (case fold (enqueue blocked w h) [(x - 1, y), (x + 1, y), (x, y - 1), (x, y + 1)]
             (outside, rest) of
        (outside', q') \<Rightarrow> bfs_loop blocked w h outside' q')"
  by pat_completeness auto

definition border_seeds :: "int \<Rightarrow> int \<Rightarrow> (int \<times> int) list" where
  "border_seeds w h =
     concat (map (\<lambda>x. [(x, 0), (x, h - 1)]) [0..w - 1])
     @ concat (map (\<lambda>y. [(0, y), (w - 1, y)]) [0..h - 1])"

definition fill_closed_regions_python :: "mask \<Rightarrow> mask" where
  "fill_closed_regions_python blocked_binary =
     (let w = width blocked_binary; h = height blocked_binary
      in if w = 0 \<or> h = 0 then new_image w h False
         else
           let outside0 = new_image w h False;
               (outside1, q) = fold (enqueue blocked_binary (int w) (int h))
                                 (border_seeds (int w) (int h)) (outside0, []);
               outside = bfs_loop blocked_binary (int w) (int h) outside1 q;
               solid = invert outside
           in logical_and solid (invert blocked_binary))"

text \<open>
  \<open>fill_closed_regions\<close>. Its first argument says whether \<open>ImageDraw.floodfill\<close> exists in
  the installed Pillow; where it does not, the source catches the \<open>AttributeError\<close> and
  calls the fallback.
\<close>

definition fill_closed_regions :: "bool \<Rightarrow> mask \<Rightarrow> int \<Rightarrow> mask" where
  "fill_closed_regions have_floodfill outl dilation_radius =
     (let blocked_l =
            (if dilation_radius > 0
             then MaxFilter (nat (max 3 (2 * dilation_radius + 1))) (convert_L outl)
             else convert_L outl);
          blocked_binary = point (\<lambda>v. v > 0) blocked_l;
          w = width blocked_binary; h = height blocked_binary
      in if w = 0 \<or> h = 0 then new_image w h False
         else
           let flood_img = convert_L blocked_binary
           in if have_floodfill
              then
                let flooded = floodfill flood_img (0, 0) 128;
                    outside = point (\<lambda>v. v = 128) flooded;
                    solid = invert outside
                in logical_and solid (invert blocked_binary)
              else fill_closed_regions_python blocked_binary)"

section \<open>Dual-threshold segmenter\<close>

text \<open>
  The filters of Pillow whose arithmetic is the library's own (box blur, the
  \<open>FIND_EDGES\<close> kernel, Gaussian blur) are parameters of the model, together with the flag
  that says whether \<open>ImageDraw.floodfill\<close> exists.
\<close>

record pillow =
  have_floodfill :: bool
  BoxBlur :: "nat \<Rightarrow> gray \<Rightarrow> gray"
  FIND_EDGES :: "gray \<Rightarrow> gray"
  GaussianBlur :: "real \<Rightarrow> gray \<Rightarrow> gray"

record BWParams =
  threshold_bg :: int
  threshold_detail :: int
  blur :: real
  dilate_px :: int
  antialias_radius :: real
  detail_join_px :: int

definition smooth_binary_edges :: "pillow \<Rightarrow> mask \<Rightarrow> real \<Rightarrow> mask" where
  "smooth_binary_edges L m radius =
     (if radius \<le> 0 then m
      else
        let mask_l = convert_L m;
            blurred = GaussianBlur L radius mask_l
        in point (\<lambda>v. v \<ge> 128) blurred)"

definition connect_detail_gaps :: "pillow \<Rightarrow> mask \<Rightarrow> int \<Rightarrow> real \<Rightarrow> mask" where
  "connect_detail_gaps L m join_radius smooth_radius =
     (let base = m;
          result = base;
          result1 = (if join_radius > 0
                     then logical_or result (apply_closing base join_radius)
                     else result);
          result2 = (if smooth_radius > 0
                     then smooth_binary_edges L result1 smooth_radius
                     else result1)
      in result2)"

definition detect_relative_dark_regions :: "pillow \<Rightarrow> gray \<Rightarrow> mask \<Rightarrow> int \<Rightarrow> int \<Rightarrow> mask" where
  "detect_relative_dark_regions L gray_processed paper_candidate t_bg t_detail =
     (if \<not> has_bbox paper_candidate
      then new_image (width gray_processed) (height gray_processed) False
      else
        let local_mean = BoxBlur L 1 gray_processed;
            local_min = MinFilter 3 gray_processed;
            local_drop = subtract local_mean local_min;
            relative_margin = max 6 ((t_bg - t_detail) div 3);
            rel_candidates = point (\<lambda>d. int d \<ge> relative_margin) local_drop;
            near_bg = point (\<lambda>g. int g < t_bg - 2) gray_processed;
            rel_candidates1 = logical_and rel_candidates near_bg;
            rel_candidates2 = logical_and rel_candidates1 paper_candidate;
            edge_map = FIND_EDGES L gray_processed;
            edge_thresh = max 20 (min 96 ((t_bg - t_detail) * 2 + 16));
            edge_mask = point (\<lambda>v. int v \<ge> edge_thresh) edge_map;
            edge_mask1 = logical_and edge_mask paper_candidate;
            rel_candidates3 =
              (if has_bbox edge_mask1
               then
                 let edge_mask2 = apply_closing edge_mask1 1;
                     edge_regions = fill_closed_regions (have_floodfill L) edge_mask2 1
                 in logical_and rel_candidates2 edge_regions
               else rel_candidates2)
        in apply_closing rel_candidates3 1)"

text \<open>The library filters return an image of the size of their argument.\<close>

definition keeps_shape :: "pillow \<Rightarrow> bool" where
  "keeps_shape L =
     (\<forall>n r img. shape (BoxBlur L n img) = shape img
              \<and> shape (GaussianBlur L r img) = shape img
              \<and> shape (FIND_EDGES L img) = shape img)"

text \<open>\<open>clamp_t_bg\<close> and \<open>outline_raw\<close> are the first two locals of \<open>build_masks_from_gray\<close>.\<close>

definition clamp_t_bg :: "BWParams \<Rightarrow> int" where
  "clamp_t_bg params = max 0 (min 255 (threshold_bg params))"

definition outline_raw :: "gray \<Rightarrow> BWParams \<Rightarrow> mask" where
  "outline_raw gray_processed params =
     point (\<lambda>g. int g < clamp_t_bg params) gray_processed"

definition build_masks_from_gray :: "pillow \<Rightarrow> gray \<Rightarrow> BWParams \<Rightarrow> MaskResult" where
  "build_masks_from_gray L gray_processed params =
     (let t_bg = clamp_t_bg params;
          t_detail = max 0 (min t_bg (threshold_detail params));
          outline_raw' = outline_raw gray_processed params;
          outline_closed = apply_closing outline_raw' (dilate_px params);
          combined_outline = logical_or outline_raw' outline_closed;
          fill_radius = (if dilate_px params > 0 then dilate_px params else 0);
          filled' = fill_closed_regions (have_floodfill L) outline_closed fill_radius;
          paper_candidate = filled';
          holes_raw = point (\<lambda>g. int g < t_detail) gray_processed;
          holes_seed = logical_and holes_raw paper_candidate;
          holes_rel = detect_relative_dark_regions L gray_processed paper_candidate t_bg t_detail;
          holes_seed1 = (if has_bbox holes_rel then logical_or holes_seed holes_rel
                         else holes_seed);
          hole_close_radius = (if dilate_px params > 0 then dilate_px params else 0);
          holes_refined = apply_closing holes_seed1 hole_close_radius;
          detail_outline = extract_outline holes_refined 1;
          outline_bridge = max (dilate_px params) (detail_join_px params);
          detail_outline_closed = apply_closing detail_outline outline_bridge;
          detail_filled = fill_closed_regions (have_floodfill L) detail_outline_closed outline_bridge;
          holes_combined = logical_or holes_refined detail_filled;
          join_radius = max 0 (detail_join_px params);
          join_smooth = max 0 (of_int join_radius * (35 / 100));
          holes_joined = connect_detail_gaps L holes_combined join_radius join_smooth;
          holes_limited = logical_and holes_joined filled';
          paper' = logical_and paper_candidate (invert holes_limited)
      in \<lparr>paper = paper', filled = filled', holes = holes_limited,
          outline = combined_outline\<rparr>)"

section \<open>Auto-flip decision\<close>

definition compute_mask_ratio :: "mask \<Rightarrow> real" where
  "compute_mask_ratio m =
     (let mask_l = convert_L m;
          total_pixels = width m * height m
      in if total_pixels = 0 then 0
         else
           let white_pixels = real (stat_sum mask_l) / 255
           in white_pixels / real total_pixels)"

definition box_mean :: "gray \<Rightarrow> int \<times> int \<times> int \<times> int \<Rightarrow> real \<times> int" where
  "box_mean g box =
     (case box of (x0, y0, x1, y1) \<Rightarrow>
        if x0 \<ge> x1 \<or> y0 \<ge> y1 then (0, 0)
        else (stat_mean (crop g box), (x1 - x0) * (y1 - y0)))"

definition border_and_center_means :: "gray \<Rightarrow> real \<Rightarrow> real \<times> real" where
  "border_and_center_means g border_fraction =
     (let w = int (width g); h = int (height g)
      in if w = 0 \<or> h = 0 then (0, 0)
         else
           let bw = max 1 (py_round (of_int w * border_fraction));
               bh = max 1 (py_round (of_int h * border_fraction));
               top_box = (0, 0, w, bh);
               bottom_box = (0, h - bh, w, h);
               left_box = (0, bh, bw, h - bh);
               right_box = (w - bw, bh, w, h - bh);
               center_box = (bw, bh, w - bw, h - bh);
               border_parts = [top_box, bottom_box, left_box, right_box];
               (border_sum, border_area) =
                 fold (\<lambda>part (s, a).
                         let (mean, area) = box_mean g part
                         in (s + mean * of_int area, a + area))
                      border_parts (0, 0);
               border_mean = (if border_area = 0 then 0
                              else border_sum / of_int border_area);
               (center_mean, center_area) = box_mean g center_box;
               center_mean' = (if center_area = 0 then stat_mean g else center_mean)
           in (border_mean, center_mean'))"

text \<open>\<open>str.lower\<close> on the ASCII letters.\<close>

definition lower_char :: "char \<Rightarrow> char" where
  "lower_char c =
     (case map_of (zip ''ABCDEFGHIJKLMNOPQRSTUVWXYZ'' ''abcdefghijklmnopqrstuvwxyz'') c of
        Some l \<Rightarrow> l
      | None \<Rightarrow> c)"

definition lower :: "string \<Rightarrow> string" where
  "lower s = map lower_char s"

definition should_flip_auto :: "gray \<Rightarrow> MaskResult \<Rightarrow> string \<Rightarrow> real \<Rightarrow> bool" where
  "should_flip_auto gray_processed mask_result invert_mode tolerance =
     (let mode = lower invert_mode
      in if mode = ''flip'' then True
         else if mode = ''keep'' then False
         else
           let paper_ratio = compute_mask_ratio (paper mask_result)
           in if paper_ratio \<le> 1 / 2 then False
              else
                let (border_mean, center_mean) =
                      border_and_center_means gray_processed (12 / 100)
                in border_mean + tolerance < center_mean)"

section \<open>Panel layout and tiling\<close>

datatype error = ValueError | FileNotFoundError

record PanelLayout =
  dpi :: int
  cols :: int
  rows :: int
  margin_mm :: real

definition a4_size_px :: "int \<Rightarrow> int \<times> int" where
  "a4_size_px d = (mm_to_px 210 d, mm_to_px 297 d)"

definition page_size_px :: "PanelLayout \<Rightarrow> int \<times> int" where
  "page_size_px l = a4_size_px (dpi l)"

definition tile_size_px :: "PanelLayout \<Rightarrow> error + int \<times> int" where
  "tile_size_px l =
     (case page_size_px l of (pw, ph) \<Rightarrow>
        let margin_px = mm_to_px (margin_mm l) (dpi l);
            inner_w = pw - 2 * margin_px;
            inner_h = ph - 2 * margin_px
        in if inner_w \<le> 0 \<or> inner_h \<le> 0 then Inl ValueError
           else Inr (inner_w, inner_h))"

definition panel_size_px :: "PanelLayout \<Rightarrow> error + int \<times> int" where
  "panel_size_px l =
     (case tile_size_px l of
        Inl e \<Rightarrow> Inl e
      | Inr (tw, th) \<Rightarrow> Inr (cols l * tw, rows l * th))"

text \<open>\<open>slice_panel_into_tiles\<close>: the crop boxes of the tiles, row by row.\<close>

definition slice_panel_into_tiles :: "PanelLayout \<Rightarrow> error + (int \<times> int \<times> int \<times> int) list" where
  "slice_panel_into_tiles l =
     (case tile_size_px l of
        Inl e \<Rightarrow> Inl e
      | Inr (tw, th) \<Rightarrow>
          Inr (concat (map (\<lambda>row. map (\<lambda>col.
                 let left = col * tw; upper = row * th
                 in (left, upper, left + tw, upper + th))
               [0..cols l - 1]) [0..rows l - 1])))"

text \<open>
  The alternate pipeline reads its configuration from a dictionary; the keys used here are
  the fields of \<open>cfg\<close> (\<open>grid\<close> already parsed into columns and rows, \<open>min_bridge_mm\<close>
  optional). Its \<open>mm_to_px\<close>, in \<open>vyt/utils/units.py\<close>, is the same rounding.
\<close>

record cfg =
  cfg_dpi :: int
  margins_mm :: real
  overlap_mm :: real
  grid :: "int \<times> int"
  min_bridge_mm :: "real option"

definition units_mm_to_px :: "real \<Rightarrow> int \<Rightarrow> int" where
  "units_mm_to_px mm d = py_round (mm * of_int d / (254 / 10))"

text \<open>A tile written by \<open>to_tiles\<close>: its grid position, page number and SVG view box.\<close>

record tile =
  tile_row :: int
  tile_col :: int
  page_number :: int
  offset_x :: int
  offset_y :: int
  tile_w_vb :: int
  tile_h_vb :: int

definition to_tiles :: "cfg \<Rightarrow> tile list" where
  "to_tiles c =
     (let d = cfg_dpi c;
          margins_px = units_mm_to_px (margins_mm c) d;
          overlap_px = units_mm_to_px (overlap_mm c) d;
          (cols', rows') = grid c;
          a4_w_px = units_mm_to_px 210 d;
          a4_h_px = units_mm_to_px 297 d;
          w_vb = a4_w_px - 2 * margins_px + 2 * overlap_px;
          h_vb = a4_h_px - 2 * margins_px + 2 * overlap_px;
          step_x = w_vb - 2 * overlap_px;
          step_y = h_vb - 2 * overlap_px
      in concat (map (\<lambda>row. map (\<lambda>col.
           \<lparr>tile_row = row + 1, tile_col = col + 1,
            page_number = row * cols' + col + 1,
            offset_x = col * step_x, offset_y = row * step_y,
            tile_w_vb = w_vb, tile_h_vb = h_vb\<rparr>)
         [0..cols' - 1]) [0..rows' - 1]))"

section \<open>Bridge-width enforcer\<close>

text \<open>
  The OpenCV calls whose values are the library's own are parameters: the distance
  transform (\<open>DIST_L2\<close>, mask size 5) and the elliptic structuring element of a given size.
  \<open>cv2.dilate\<close> with the default anchor and border sets a pixel when some position under a
  set kernel cell, inside the image, is set.
\<close>

record cv2 =
  distanceTransform :: "mask \<Rightarrow> real list list"
  getStructuringElement :: "nat \<Rightarrow> mask"

definition dilate :: "mask \<Rightarrow> mask \<Rightarrow> mask" where
  "dilate src kern =
     tabulate (width src) (height src) (\<lambda>x y.
       list_ex (\<lambda>j. list_ex (\<lambda>i.
           kern ! j ! i
           \<and> getpixel src (int x + int i - int (width kern div 2))
                           (int y + int j - int (height kern div 2)) = Some True)
         [0..<length (kern ! j)]) [0..<length kern])"

definition np_where :: "mask \<Rightarrow> mask \<Rightarrow> mask \<Rightarrow> mask" where
  "np_where c a b =
     map2 (\<lambda>rc (ra, rb). map2 (\<lambda>pc (pa, pb). if pc then pa else pb) rc (zip ra rb))
       c (zip a b)"

text \<open>
  \<open>min_bridge_px\<close>, \<open>bridge_radius\<close> and \<open>thin_threshold\<close> are the locals of those names
  (\<open>radius\<close> for the second) at the head of \<open>enforce\<close>. The mask file is the image read
  from it, \<open>None\<close> when \<open>cv2.imread\<close> finds no image; the result is the image behind the
  returned path.
\<close>

definition min_bridge_px :: "cfg \<Rightarrow> int" where
  "min_bridge_px c =
     (let d = cfg_dpi c;
          bridge_mm = (case min_bridge_mm c of None \<Rightarrow> 12 / 10 | Some v \<Rightarrow> v)
      in max 1 (units_mm_to_px bridge_mm d))"

definition bridge_radius :: "cfg \<Rightarrow> int" where
  "bridge_radius c = max 1 (py_round (of_int (min_bridge_px c) / 2))"

definition thin_threshold :: "cfg \<Rightarrow> real" where
  "thin_threshold c = max 1 (of_int (min_bridge_px c) / 2)"

definition enforce :: "cv2 \<Rightarrow> cfg \<Rightarrow> gray option \<Rightarrow> error + gray" where
  "enforce C c mask_png =
     (let radius = bridge_radius c;
          kernel_size = radius * 2 + 1
      in case mask_png of
           None \<Rightarrow> Inl FileNotFoundError
         | Some m \<Rightarrow>
             let binary = point (\<lambda>v. v > 127) m;
                 dist = distanceTransform C binary;
                 thin_regions = point (\<lambda>dv. dv < thin_threshold c) dist
             in if \<not> has_bbox thin_regions then Inr m
                else
                  let kern = getStructuringElement C (nat kernel_size);
                      dilated = dilate binary kern;
                      region_of_interest = dilate thin_regions kern;
                      reinforced = np_where region_of_interest dilated binary
                  in Inr (convert_L reinforced))"

section \<open>Concrete inputs\<close>

text \<open>
  A 5 \<times> 4 image whose border band has mean 220 and whose interior has mean 40, and a
  preview paper mask with 17 of its 20 pixels set.
\<close>

definition flip_gray :: gray where
  "flip_gray =
     [[220, 220, 220, 220, 220],
      [220,  40,  40,  40, 220],
      [220,  40,  40,  40, 220],
      [220, 220, 220, 220, 220]]"

definition flip_paper :: mask where
  "flip_paper =
     [[True, True, True, True, True],
      [True, True, True, True, True],
      [True, True, True, True, True],
      [True, True, False, False, False]]"

definition flip_masks :: MaskResult where
  "flip_masks = \<lparr>paper = flip_paper, filled = flip_paper,
                 holes = new_image 5 4 False, outline = new_image 5 4 False\<rparr>"

text \<open>An outline that is one vertical line through the middle of a 3 \<times> 3 canvas.\<close>

definition wall_outline :: mask where
  "wall_outline =
     [[False, True, False],
      [False, True, False],
      [False, True, False]]"

text \<open>A closed contour away from the border, and a canvas that is all outline.\<close>

definition ring_outline :: mask where
  "ring_outline =
     [[False, False, False, False, False],
      [False, True,  True,  True,  False],
      [False, True,  False, True,  False],
      [False, True,  True,  True,  False],
      [False, False, False, False, False]]"

definition full_outline :: mask where
  "full_outline = new_image 3 3 True"

text \<open>
  A 5 \<times> 5 image: a light margin (255), a dark ring (100) and a centre pixel of
  brightness 200.
\<close>

definition ring_gray :: gray where
  "ring_gray =
     [[255, 255, 255, 255, 255],
      [255, 100, 100, 100, 255],
      [255, 100, 200, 100, 255],
      [255, 100, 100, 100, 255],
      [255, 255, 255, 255, 255]]"

definition ring_params :: "int \<Rightarrow> BWParams" where
  "ring_params t =
     \<lparr>threshold_bg = t, threshold_detail = 50, blur = 0, dilate_px = 0,
      antialias_radius = 0, detail_join_px = 0\<rparr>"

text \<open>A 4 \<times> 4 mask: a 3 \<times> 3 block in the upper right corner.\<close>

definition block_mask :: mask where
  "block_mask =
     [[False, True, True, True],
      [False, True, True, True],
      [False, True, True, True],
      [False, False, False, False]]"

text \<open>A one-row mask with a one-pixel gap between two foreground pixels.\<close>

definition gap_mask :: mask where
  "gap_mask = [[True, False, True, False, False]]"

text \<open>
  A 5 \<times> 5 mask file with a solid 3 \<times> 3 square, a configuration at 50 dpi (minimum
  bridge 1.2 mm, that is 2 pixels, radius 1), and what OpenCV returns for them: the
  distances of the square's pixels to the background and the 3 \<times> 3 elliptic kernel.
\<close>

definition square_mask :: gray where
  "square_mask =
     [[0,   0,   0,   0, 0],
      [0, 255, 255, 255, 0],
      [0, 255, 255, 255, 0],
      [0, 255, 255, 255, 0],
      [0,   0,   0,   0, 0]]"

definition square_cfg :: cfg where
  "square_cfg =
     \<lparr>cfg_dpi = 50, margins_mm = 10, overlap_mm = 5, grid = (1, 1), min_bridge_mm = None\<rparr>"

definition square_dist :: "real list list" where
  "square_dist =
     [[0, 0, 0, 0, 0],
      [0, 1, 1, 1, 0],
      [0, 1, 2, 1, 0],
      [0, 1, 1, 1, 0],
      [0, 0, 0, 0, 0]]"

definition ellipse3 :: mask where
  "ellipse3 =
     [[False, True, False],
      [True,  True, True],
      [False, True, False]]"

definition square_cv2 :: cv2 where
  "square_cv2 =
     \<lparr>distanceTransform = (\<lambda>b. square_dist), getStructuringElement = (\<lambda>n. ellipse3)\<rparr>"

text \<open>Library filters that leave the image as it is, with the flood fill available.\<close>

definition plain_pillow :: pillow where
  "plain_pillow =
     \<lparr>have_floodfill = True, BoxBlur = (\<lambda>r g. g), FIND_EDGES = (\<lambda>g. g),
      GaussianBlur = (\<lambda>r g. g)\<rparr>"

text \<open>Margins of 200 mm on an A4 page at 300 dpi.\<close>

definition wide_margin_layout :: PanelLayout where
  "wide_margin_layout = \<lparr>dpi = 300, cols = 1, rows = 1, margin_mm = 200\<rparr>"

definition wide_margin_cfg :: cfg where
  "wide_margin_cfg =
     \<lparr>cfg_dpi = 300, margins_mm = 200, overlap_mm = 0, grid = (1, 1),
      min_bridge_mm = None\<rparr>"

section \<open>Theorems\<close>

subsection \<open>Termination of the two flood fills\<close>

lemma count_row_update:
  "x < length row \<Longrightarrow> P (row ! x) \<Longrightarrow> \<not> P v \<Longrightarrow>
   Suc (length (filter P (row[x := v]))) = length (filter P row)"
proof (induction row arbitrary: x)
  case Nil
  then show ?case by simp
next
  case (Cons a row)
  then show ?case by (cases x) auto
qed

lemma count_px_setpixel:
  assumes "getpixel img x y = Some p" "P p" "\<not> P v"
  shows "Suc (count_px P (setpixel img x y v)) = count_px P img"
proof -
  from assms(1) have b: "nat y < length img" "nat x < length (img ! nat y)"
    and p: "img ! nat y ! nat x = p"
    by (auto simp: getpixel_def split: if_splits)
  let ?f = "\<lambda>row. length (filter P row)"
  have r: "Suc (?f ((img ! nat y)[nat x := v])) = ?f (img ! nat y)"
    using count_row_update[OF b(2), of P v] p assms by simp
  have "count_px P (setpixel img x y v)
        = sum_list ((map ?f img)[nat y := ?f ((img ! nat y)[nat x := v])])"
    by (simp add: count_px_def setpixel_def map_update)
  also have "\<dots> = sum_list (map ?f img) + ?f ((img ! nat y)[nat x := v]) - (map ?f img) ! nat y"
    using b(1) by (simp add: sum_list_update)
  finally have e: "count_px P (setpixel img x y v)
        = sum_list (map ?f img) + ?f ((img ! nat y)[nat x := v]) - ?f (img ! nat y)"
    using b(1) by simp
  have "?f (img ! nat y) \<le> sum_list (map ?f img)"
    using b(1) by (simp add: member_le_sum_list)
  with e r show ?thesis unfolding count_px_def by linarith
qed

lemma enqueue_measure:
  "enqueue blocked w h xy (outside, q) = (outside', q') \<Longrightarrow>
   2 * count_px Not outside' + length q' \<le> 2 * count_px Not outside + length q"
  by (cases xy)
     (auto simp: enqueue_def split: if_splits
           dest!: count_px_setpixel[where P=Not and v=True])

lemma fold_enqueue_measure:
  "fold (enqueue blocked w h) xs (outside, q) = (outside', q') \<Longrightarrow>
   2 * count_px Not outside' + length q' \<le> 2 * count_px Not outside + length q"
proof (induction xs arbitrary: outside q)
  case Nil
  then show ?case by simp
next
  case (Cons a xs)
  obtain o1 q1 where s: "enqueue blocked w h a (outside, q) = (o1, q1)" by force
  from Cons.prems s have "fold (enqueue blocked w h) xs (o1, q1) = (outside', q')" by simp
  from Cons.IH[OF this] enqueue_measure[OF s] show ?case by simp
qed

termination bfs_loop
proof (relation "measure (\<lambda>(blocked, w, h, outside, q). 2 * count_px Not outside + length q)",
    goal_cases)
  case 1
  show ?case by simp
next
  case (2 blocked w h outside x y rest xa ya)
  from fold_enqueue_measure[OF 2[symmetric]] show ?case by simp
qed

lemma visit_measure:
  "val \<noteq> bg \<Longrightarrow> visit bg val st (img, fe, ne) = (img', fe', ne') \<Longrightarrow>
   count_px (\<lambda>p. p = bg) img' + length ne' \<le> count_px (\<lambda>p. p = bg) img + length ne"
  by (cases st)
     (auto simp: visit_def List.insert_def split: if_splits option.splits
           dest!: count_px_setpixel[where P="\<lambda>p. p = bg" and v=val])

lemma fold_visit_measure:
  "val \<noteq> bg \<Longrightarrow> fold (visit bg val) sts (img, fe, ne) = (img', fe', ne') \<Longrightarrow>
   count_px (\<lambda>p. p = bg) img' + length ne' \<le> count_px (\<lambda>p. p = bg) img + length ne"
proof (induction sts arbitrary: img fe ne)
  case Nil
  then show ?case by simp
next
  case (Cons a sts)
  obtain i1 f1 n1 where s: "visit bg val a (img, fe, ne) = (i1, f1, n1)"
    by (metis prod_cases3)
  from Cons.prems s have "fold (visit bg val) sts (i1, f1, n1) = (img', fe', ne')" by simp
  from Cons.IH[OF Cons.prems(1) this] visit_measure[OF Cons.prems(1) s] show ?case by simp
qed

lemma flood_round_measure:
  "val \<noteq> bg \<Longrightarrow> flood_round bg val edge (img, fe, ne) = (img', fe', ne') \<Longrightarrow>
   count_px (\<lambda>p. p = bg) img' + length ne' \<le> count_px (\<lambda>p. p = bg) img + length ne"
proof (induction edge arbitrary: img fe ne)
  case Nil
  then show ?case by (simp add: flood_round_def)
next
  case (Cons a edge)
  obtain x y where a: "a = (x, y)" by force
  obtain i1 f1 n1 where s:
    "fold (visit bg val) [(x + 1, y), (x - 1, y), (x, y + 1), (x, y - 1)] (img, fe, ne)
     = (i1, f1, n1)"
    by (metis prod_cases3)
  from Cons.prems(2) a s have "flood_round bg val edge (i1, f1, n1) = (img', fe', ne')"
    by (simp add: flood_round_def)
  from Cons.IH[OF Cons.prems(1) this] fold_visit_measure[OF Cons.prems(1) s]
  show ?case by simp
qed

termination flood_loop
proof (relation "measure (\<lambda>(bg, val, img, fe, edge).
          2 * count_px (\<lambda>p. p = bg) img + (if edge = [] then 0 else 1))", goal_cases)
  case 1
  show ?case by simp
next
  case (2 bg val img fe edge img' r fe' ne')
  then have ne: "val \<noteq> bg" and ed: "edge \<noteq> []" by simp_all
  have "flood_round bg val edge (img, fe, []) = (img', fe', ne')"
    using 2 by simp
  from flood_round_measure[OF ne this]
  have "count_px (\<lambda>p. p = bg) img' + length ne' \<le> count_px (\<lambda>p. p = bg) img" by simp
  with ed show ?case by (cases ne') auto
qed

declare flood_loop.simps [simp del]

subsection \<open>Shapes are preserved\<close>

lemma shape_point: "shape (point f a) = shape a"
  by (simp add: shape_def point_def)

lemma shape_convert_L: "shape (convert_L a) = shape a"
  by (simp add: shape_def convert_L_def)

lemma shape_invert: "shape (invert a) = shape a"
  by (simp add: shape_def invert_def)

lemma length_shape: "length (shape a) = length a"
  by (simp add: shape_def)

lemma shape_nth: "y < length a \<Longrightarrow> shape a ! y = length (a ! y)"
  by (simp add: shape_def)

lemma shape_map2:
  "shape a = shape b \<Longrightarrow> shape (map2 (map2 f) a b) = shape a"
  unfolding shape_def
proof (induction a arbitrary: b)
  case Nil
  then show ?case by simp
next
  case (Cons r a)
  then show ?case by (cases b) auto
qed

lemma shape_logical_and: "shape a = shape b \<Longrightarrow> shape (logical_and a b) = shape a"
  unfolding logical_and_def by (rule shape_map2)

lemma shape_logical_or: "shape a = shape b \<Longrightarrow> shape (logical_or a b) = shape a"
  unfolding logical_or_def by (rule shape_map2)

lemma shape_subtract: "shape a = shape b \<Longrightarrow> shape (subtract a b) = shape a"
  unfolding subtract_def by (rule shape_map2)

lemma shape_tabulate: "shape (tabulate w h f) = replicate h w"
  by (simp add: shape_def tabulate_def comp_def map_replicate_const)

lemma shape_new_image: "shape (new_image w h v) = replicate h w"
  by (simp add: shape_def new_image_def)

lemma rect_shape: "rect a \<Longrightarrow> shape a = replicate (height a) (width a)"
  unfolding rect_def shape_def height_def
  by (simp add: list_all_iff map_replicate_const[symmetric] cong: map_cong)

lemma shape_width: "shape a = shape b \<Longrightarrow> width a = width b"
  by (cases a; cases b) (auto simp: shape_def width_def)

lemma shape_height: "shape a = shape b \<Longrightarrow> height a = height b"
  by (auto simp: shape_def height_def dest: map_eq_imp_length_eq)

lemma shape_rect: "shape a = shape b \<Longrightarrow> rect b \<Longrightarrow> rect a"
proof -
  assume s: "shape a = shape b" and r: "rect b"
  have "shape a = replicate (height a) (width a)"
    using rect_shape[OF r] s shape_width[OF s] shape_height[OF s] by simp
  then show ?thesis
    unfolding rect_def shape_def list_all_iff
    by (metis in_set_replicate imageI set_map)
qed

lemma shape_MaxFilter: "rect a \<Longrightarrow> shape (MaxFilter k a) = shape a"
  by (simp add: MaxFilter_def shape_tabulate rect_shape)

lemma shape_MinFilter: "rect a \<Longrightarrow> shape (MinFilter k a) = shape a"
  by (simp add: MinFilter_def shape_tabulate rect_shape)

lemma shape_setpixel: "shape (setpixel a x y v) = shape a"
  unfolding shape_def setpixel_def
  by (cases "nat y < length a") (simp_all add: map_update list_update_same_conv list_update_beyond)

lemma shape_fold_enqueue:
  "fold (enqueue blocked w h) xs (outside, q) = (outside', q') \<Longrightarrow> shape outside' = shape outside"
proof (induction xs arbitrary: outside q)
  case Nil
  then show ?case by simp
next
  case (Cons a xs)
  obtain o1 q1 where s: "enqueue blocked w h a (outside, q) = (o1, q1)" by force
  then have "shape o1 = shape outside"
    by (cases a) (auto simp: enqueue_def shape_setpixel split: if_splits)
  moreover from Cons.prems s have "fold (enqueue blocked w h) xs (o1, q1) = (outside', q')" by simp
  from Cons.IH[OF this] have "shape outside' = shape o1" .
  ultimately show ?case by simp
qed

lemma shape_bfs_loop: "shape (bfs_loop blocked w h outside q) = shape outside"
proof (induction blocked w h outside q rule: bfs_loop.induct)
  case (1 blocked w h outside)
  then show ?case by simp
next
  case (2 blocked w h outside x y rest)
  obtain o1 q1 where s:
    "fold (enqueue blocked w h) [(x - 1, y), (x + 1, y), (x, y - 1), (x, y + 1)] (outside, rest)
     = (o1, q1)" by force
  from 2[OF s[symmetric]] shape_fold_enqueue[OF s] s show ?case by simp
qed

lemma shape_fill_python:
  "rect b \<Longrightarrow> shape (fill_closed_regions_python b) = shape b"
proof -
  assume r: "rect b"
  let ?w = "width b" and ?h = "height b"
  show ?thesis
  proof (cases "?w = 0 \<or> ?h = 0")
    case True
    then show ?thesis
      by (simp add: fill_closed_regions_python_def shape_new_image rect_shape[OF r])
  next
    case False
    obtain o1 q where s: "fold (enqueue b (int ?w) (int ?h)) (border_seeds (int ?w) (int ?h))
        (new_image ?w ?h False, []) = (o1, q)" by force
    have "shape o1 = shape b"
      using shape_fold_enqueue[OF s] by (simp add: shape_new_image rect_shape[OF r])
    then have "shape (bfs_loop b (int ?w) (int ?h) o1 q) = shape b"
      by (simp add: shape_bfs_loop)
    then show ?thesis
      using False s
      by (simp add: fill_closed_regions_python_def Let_def shape_logical_and shape_invert)
  qed
qed

lemma shape_visit:
  "visit bg val st (img, fe, ne) = (img', fe', ne') \<Longrightarrow> shape img' = shape img"
  by (cases st) (auto simp: visit_def shape_setpixel split: if_splits option.splits)

lemma shape_fold_visit:
  "fold (visit bg val) sts (img, fe, ne) = (img', fe', ne') \<Longrightarrow> shape img' = shape img"
proof (induction sts arbitrary: img fe ne)
  case Nil
  then show ?case by simp
next
  case (Cons a sts)
  obtain i1 f1 n1 where s: "visit bg val a (img, fe, ne) = (i1, f1, n1)"
    by (metis prod_cases3)
  from Cons.prems s have "fold (visit bg val) sts (i1, f1, n1) = (img', fe', ne')" by simp
  from Cons.IH[OF this] shape_visit[OF s] show ?case by simp
qed

lemma shape_flood_round:
  "flood_round bg val edge (img, fe, ne) = (img', fe', ne') \<Longrightarrow> shape img' = shape img"
proof (induction edge arbitrary: img fe ne)
  case Nil
  then show ?case by (simp add: flood_round_def)
next
  case (Cons a edge)
  obtain x y where a: "a = (x, y)" by force
  obtain i1 f1 n1 where s:
    "fold (visit bg val) [(x + 1, y), (x - 1, y), (x, y + 1), (x, y - 1)] (img, fe, ne)
     = (i1, f1, n1)"
    by (metis prod_cases3)
  from Cons.prems a s have "flood_round bg val edge (i1, f1, n1) = (img', fe', ne')"
    by (simp add: flood_round_def)
  from Cons.IH[OF this] shape_fold_visit[OF s] show ?case by simp
qed

lemma shape_flood_loop: "shape (flood_loop bg val img fe edge) = shape img"
proof (induction bg val img fe edge rule: flood_loop.induct)
  case (1 bg val img fe edge)
  show ?case
  proof (cases "edge = [] \<or> val = bg")
    case True
    then show ?thesis by (auto simp: flood_loop.simps)
  next
    case False
    obtain i1 f1 n1 where s: "flood_round bg val edge (img, fe, []) = (i1, f1, n1)"
      by (metis prod_cases3)
    from 1[OF False s[symmetric] refl] shape_flood_round[OF s] False s
    show ?thesis by (subst flood_loop.simps) simp
  qed
qed

lemma shape_floodfill: "shape (floodfill im xy val) = shape im"
  by (cases xy)
     (auto simp: floodfill_def shape_flood_loop shape_setpixel split: option.splits)

lemma shape_fill_closed_regions:
  assumes "rect a"
  shows "shape (fill_closed_regions ff a r) = shape a"
proof -
  define bl where "bl = (if r > 0 then MaxFilter (nat (max 3 (2 * r + 1))) (convert_L a)
                         else convert_L a)"
  define bb where "bb = point (\<lambda>v. v > 0) bl"
  have ra: "rect (convert_L a)"
    using assms shape_convert_L shape_rect by blast
  have sbb: "shape bb = shape a"
    by (simp add: bb_def bl_def shape_point shape_MaxFilter[OF ra] shape_convert_L)
  then have rbb: "rect bb" using assms shape_rect by blast
  have "fill_closed_regions ff a r =
     (if width bb = 0 \<or> height bb = 0 then new_image (width bb) (height bb) False
      else if ff then logical_and (invert (point (\<lambda>v. v = 128) (floodfill (convert_L bb) (0, 0) 128)))
                        (invert bb)
      else fill_closed_regions_python bb)"
    by (simp add: fill_closed_regions_def Let_def bb_def bl_def)
  then show ?thesis
    using sbb rbb
    by (simp add: shape_new_image rect_shape[OF rbb, symmetric] shape_fill_python
        shape_logical_and shape_invert shape_point shape_floodfill shape_convert_L)
qed

lemma shape_apply_closing: "rect a \<Longrightarrow> shape (apply_closing a r) = shape a"
proof -
  assume r: "rect a"
  have ra: "rect (convert_L a)" using r shape_convert_L shape_rect by blast
  have rb: "rect (MaxFilter k (convert_L a))" for k
    using ra shape_MaxFilter shape_rect by blast
  show ?thesis
    by (simp add: apply_closing_def Let_def shape_point shape_MinFilter[OF rb]
        shape_MaxFilter[OF ra] shape_convert_L)
qed

lemma shape_eroded_bin: "rect a \<Longrightarrow> shape (eroded_bin a r) = shape a"
proof -
  assume r: "rect a"
  have ra: "rect (convert_L a)" using r shape_convert_L shape_rect by blast
  show ?thesis
    by (simp add: eroded_bin_def Let_def shape_point shape_MinFilter[OF ra] shape_convert_L)
qed

lemma shape_extract_outline: "rect a \<Longrightarrow> shape (extract_outline a r) = shape a"
  by (simp add: extract_outline_def shape_logical_and shape_invert shape_eroded_bin)

lemma sg_point: "shape a = shape g \<Longrightarrow> shape (point f a) = shape g"
  by (simp add: shape_point)

lemma sg_invert: "shape a = shape g \<Longrightarrow> shape (invert a) = shape g"
  by (simp add: shape_invert)

lemma sg_and: "shape a = shape g \<Longrightarrow> shape b = shape g \<Longrightarrow> shape (logical_and a b) = shape g"
  by (simp add: shape_logical_and)

lemma sg_or: "shape a = shape g \<Longrightarrow> shape b = shape g \<Longrightarrow> shape (logical_or a b) = shape g"
  by (simp add: shape_logical_or)

lemma sg_closing: "rect g \<Longrightarrow> shape a = shape g \<Longrightarrow> shape (apply_closing a r) = shape g"
  using shape_apply_closing shape_rect by metis

lemma sg_fill: "rect g \<Longrightarrow> shape a = shape g \<Longrightarrow> shape (fill_closed_regions ff a r) = shape g"
  using shape_fill_closed_regions shape_rect by metis

lemma sg_outline: "rect g \<Longrightarrow> shape a = shape g \<Longrightarrow> shape (extract_outline a r) = shape g"
  using shape_extract_outline shape_rect by metis

lemma sg_smooth:
  "keeps_shape L \<Longrightarrow> shape a = shape g \<Longrightarrow> shape (smooth_binary_edges L a r) = shape g"
  by (simp add: smooth_binary_edges_def keeps_shape_def Let_def shape_point shape_convert_L)

lemma sg_connect:
  "keeps_shape L \<Longrightarrow> rect g \<Longrightarrow> shape a = shape g \<Longrightarrow>
   shape (connect_detail_gaps L a j s) = shape g"
  by (simp add: connect_detail_gaps_def Let_def sg_smooth sg_or sg_closing)

lemma sg_detect:
  assumes "keeps_shape L" "rect g" "shape pc = shape g"
  shows "shape (detect_relative_dark_regions L g pc tb td) = shape g"
proof -
  have k: "shape (BoxBlur L r img) = shape img" "shape (FIND_EDGES L img) = shape img" for r img
    using assms(1) by (simp_all add: keeps_shape_def)
  have m: "shape (MinFilter 3 g) = shape g" by (simp add: shape_MinFilter assms(2))
  have sub: "shape (subtract (BoxBlur L 1 g) (MinFilter 3 g)) = shape g"
    by (simp add: shape_subtract k m)
  show ?thesis
    unfolding detect_relative_dark_regions_def Let_def
    using assms(2,3) sub k
    by (auto simp: shape_new_image rect_shape[symmetric]
        intro!: sg_closing sg_and sg_point sg_fill)
qed

lemma shape_outline_raw: "shape (outline_raw g p) = shape g"
  by (simp add: outline_raw_def shape_point)

lemma shape_build_masks:
  assumes "keeps_shape L" "rect g"
  shows "shape (filled (build_masks_from_gray L g p)) = shape g"
    and "shape (holes (build_masks_from_gray L g p)) = shape g"
    and "shape (paper (build_masks_from_gray L g p)) = shape g"
    and "shape (outline (build_masks_from_gray L g p)) = shape g"
  unfolding build_masks_from_gray_def Let_def
  using assms
  by (auto intro!: sg_closing sg_and sg_or sg_point sg_fill sg_invert sg_connect sg_outline sg_detect
      simp: shape_outline_raw shape_point)

subsection \<open>Auto-flip decision\<close>

lemma flip_ratio: "compute_mask_ratio flip_paper = 85 / 100"
  by (simp add: flip_paper_def compute_mask_ratio_def convert_L_def stat_sum_def width_def
      height_def Let_def)

lemma flip_means: "border_and_center_means flip_gray (12 / 100) = (220, 40)"
  by (simp add: flip_gray_def border_and_center_means_def box_mean_def crop_def getpixel0_def
      stat_mean_def stat_sum_def stat_count_def width_def height_def py_round_def Let_def
      upto.simps)

text \<open>
  C1, as stated, fails: on an image whose border band has mean 220 and whose interior has
  mean 40, with a preview paper ratio of 0.85 and the default tolerance 5, the mode
  \<open>auto\<close> does not flip.
\<close>

theorem auto_flip_bright_border_counterexample:
  "compute_mask_ratio flip_paper = 85 / 100 \<and>
   border_and_center_means flip_gray (12 / 100) = (220, 40) \<and>
   \<not> should_flip_auto flip_gray flip_masks ''auto'' 5"
proof -
  have "\<not> should_flip_auto flip_gray flip_masks ''auto'' 5"
    using flip_ratio flip_means
    by (simp add: should_flip_auto_def flip_masks_def lower_def lower_char_def Let_def)
  with flip_ratio flip_means show ?thesis by blast
qed

text \<open>
  C1, amended. With invert mode \<open>auto\<close> the decision is flip exactly when the paper-area
  ratio of the preview mask is greater than 0.5 and the mean brightness of the interior is
  greater than the mean brightness of the border band by more than the tolerance; with a
  ratio of at most 0.5 the decision is keep.
\<close>

theorem should_flip_auto_decision:
  "should_flip_auto g r ''auto'' tol =
     (1 / 2 < compute_mask_ratio (paper r) \<and>
      fst (border_and_center_means g (12 / 100)) + tol
        < snd (border_and_center_means g (12 / 100)))"
  by (simp add: should_flip_auto_def lower_def lower_char_def Let_def split_beta not_le)

subsection \<open>Degenerate geometry\<close>

text \<open>
  The panel layout of the main script reports every degenerate geometry, and the panel
  size and the tile boxes are not computed then.
\<close>

lemma tile_size_px_error_iff:
  "(tile_size_px l = Inl ValueError)
   = (fst (page_size_px l) - 2 * mm_to_px (margin_mm l) (dpi l) \<le> 0
      \<or> snd (page_size_px l) - 2 * mm_to_px (margin_mm l) (dpi l) \<le> 0)"
  by (simp add: tile_size_px_def Let_def split_beta)

lemma tile_size_px_error_propagates:
  "tile_size_px l = Inl e \<Longrightarrow> panel_size_px l = Inl e \<and> slice_panel_into_tiles l = Inl e"
  by (simp add: panel_size_px_def slice_panel_into_tiles_def)

text \<open>
  C9. With margins of 200 mm at 300 dpi the inner width of an A4 page is negative. The
  panel layout of the main script reports a \<open>ValueError\<close>; \<open>to_tiles\<close> of the alternate
  pipeline reports nothing and writes a tile whose view box has negative width and height.
\<close>

theorem to_tiles_accepts_negative_tile:
  "tile_size_px wide_margin_layout = Inl ValueError \<and>
   to_tiles wide_margin_cfg =
     [\<lparr>tile_row = 1, tile_col = 1, page_number = 1, offset_x = 0, offset_y = 0,
       tile_w_vb = - 2244, tile_h_vb = - 1216\<rparr>]"
  by (simp add: tile_size_px_def wide_margin_layout_def page_size_px_def a4_size_px_def
      mm_to_px_def py_round_def MM_PER_INCH_def to_tiles_def wide_margin_cfg_def
      units_mm_to_px_def Let_def upto.simps)

subsection \<open>Flood-fill parity\<close>

text \<open>
  Where the free border pixels form one region that contains the corner \<open>(0, 0)\<close>, as
  around a closed contour, and on a canvas that is all outline, the two paths agree.
\<close>

lemma fill_paths_agree_on_ring:
  "fill_closed_regions True ring_outline 0 = fill_closed_regions False ring_outline 0 \<and>
   fill_closed_regions True ring_outline 0 =
     [[False, False, False, False, False],
      [False, False, False, False, False],
      [False, False, True,  False, False],
      [False, False, False, False, False],
      [False, False, False, False, False]]"
  by code_simp

lemma fill_paths_agree_on_full_canvas:
  "fill_closed_regions True full_outline 0 = new_image 3 3 False \<and>
   fill_closed_regions False full_outline 0 = new_image 3 3 False"
  by code_simp

text \<open>
  C2. On an outline that is one vertical line through the middle of a 3 \<times> 3 canvas the
  two paths differ. The fast path floods from the corner \<open>(0, 0)\<close> only, never reaches the
  right column and returns it as interior; the breadth-first fallback is seeded at every
  border pixel and returns an empty interior.
\<close>

theorem fill_paths_differ_on_wall:
  "fill_closed_regions True wall_outline 0 =
     [[False, False, True], [False, False, True], [False, False, True]] \<and>
   fill_closed_regions False wall_outline 0 =
     [[False, False, False], [False, False, False], [False, False, False]]"
  by code_simp

subsection \<open>Threshold monotonicity\<close>

lemma filled_build_masks:
  "filled (build_masks_from_gray L g p) =
   fill_closed_regions (have_floodfill L) (apply_closing (outline_raw g p) (dilate_px p))
     (if dilate_px p > 0 then dilate_px p else 0)"
  by (simp add: build_masks_from_gray_def Let_def)

text \<open>
  C5, as stated, fails: on a dark ring around one lighter pixel, with \<open>t_detail\<close> and the
  morphology fixed, raising \<open>t_bg\<close> from 150 to 250 turns the enclosed pixel into wall and
  the \<open>filled\<close> mask loses its only foreground pixel.
\<close>

theorem filled_count_decreases_counterexample:
  "count_px id (filled (build_masks_from_gray plain_pillow ring_gray (ring_params 150))) = 1 \<and>
   count_px id (filled (build_masks_from_gray plain_pillow ring_gray (ring_params 250))) = 0"
  unfolding filled_build_masks by code_simp

subsection \<open>Outline containment\<close>

lemma px_logical_and: "px (logical_and a b) x y = (px a x y \<and> px b x y)"
  by (auto simp: px_def logical_and_def)

lemma px_invert: "px (invert a) x y = (y < length a \<and> x < length (a ! y) \<and> \<not> a ! y ! x)"
  by (auto simp: px_def invert_def)

lemma px_invert_not: "px (invert a) x y \<Longrightarrow> \<not> px a x y"
  unfolding px_invert by (simp add: px_def)

lemma eroded_bin_coerce: "r < 1 \<Longrightarrow> eroded_bin m r = eroded_bin m 1"
  by (simp add: eroded_bin_def)

text \<open>
  C10. For every mask and every radius, each foreground pixel of the outline returned by
  \<open>extract_outline\<close> is a foreground pixel of the mask and is not a foreground pixel of the
  eroded mask; a radius below 1 is coerced to 1.
\<close>

theorem outline_containment:
  "(px (extract_outline m r) x y \<longrightarrow> px m x y \<and> \<not> px (eroded_bin m r) x y)
   \<and> (r < 1 \<longrightarrow> extract_outline m r = extract_outline m 1)"
  by (auto simp: extract_outline_def px_logical_and eroded_bin_coerce dest: px_invert_not)

theorem outline_containment_witness:
  "px (extract_outline block_mask 0) 1 0 \<and> (0::int) < 1 \<and>
   px block_mask 1 0 \<and> \<not> px (eroded_bin block_mask 0) 1 0 \<and>
   extract_outline block_mask 0 = extract_outline block_mask 1"
proof -
  have p: "px (extract_outline block_mask 0) 1 0" by code_simp
  have z: "(0::int) < 1" by simp
  from outline_containment[of block_mask 0 1 0] p z show ?thesis by blast
qed

subsection \<open>Mask bundle invariant\<close>

lemma logical_and_absorb: "logical_and (logical_and a b) b = logical_and a b"
proof -
  have row: "map2 (\<and>) (map2 (\<and>) r s) s = map2 (\<and>) r s" for r s :: "bool list"
  proof (induction r arbitrary: s)
    case Nil
    then show ?case by simp
  next
    case (Cons a r)
    then show ?case by (cases s) auto
  qed
  show ?thesis
    unfolding logical_and_def
  proof (induction a arbitrary: b)
    case Nil
    then show ?case by simp
  next
    case (Cons r a)
    then show ?case by (cases b) (auto simp: row)
  qed
qed

lemma paper_build_masks:
  "paper (build_masks_from_gray L g p)
   = logical_and (filled (build_masks_from_gray L g p))
       (invert (holes (build_masks_from_gray L g p)))"
  by (simp add: build_masks_from_gray_def Let_def)

lemma holes_build_masks:
  "logical_and (holes (build_masks_from_gray L g p)) (filled (build_masks_from_gray L g p))
   = holes (build_masks_from_gray L g p)"
  by (simp add: build_masks_from_gray_def Let_def logical_and_absorb)

lemma shape_in_bounds:
  "shape f = shape h \<Longrightarrow> (y < length f \<and> x < length (f ! y)) = (y < length h \<and> x < length (h ! y))"
proof -
  assume s: "shape f = shape h"
  then have l: "length f = length h" by (auto simp: shape_def dest: map_eq_imp_length_eq)
  have "length (f ! y) = length (h ! y)" if "y < length f"
    using shape_nth[of y f] shape_nth[of y h] s l that by simp
  with l show ?thesis by auto
qed

lemma px_paper_eq:
  assumes "shape f = shape h"
  shows "px (logical_and f (invert h)) x y = (px f x y \<and> \<not> px h x y)"
proof -
  have "px (logical_and f (invert h)) x y
        = (px f x y \<and> (y < length h \<and> x < length (h ! y) \<and> \<not> h ! y ! x))"
    by (simp only: px_logical_and px_invert)
  also have "\<dots> = (px f x y \<and> \<not> px h x y)"
    using shape_in_bounds[OF assms, of y x] by (auto simp: px_def)
  finally show ?thesis .
qed

text \<open>
  C3. For every grayscale input and every parameter set, the bundle returned by
  \<open>build_masks_from_gray\<close> satisfies \<open>paper = filled AND NOT holes\<close>, and \<open>holes\<close> is a
  subset of \<open>filled\<close>: \<open>holes AND filled = holes\<close>, every hole pixel is a filled pixel. On
  a rectangular input, with library filters that keep the size of their argument, the
  three masks have the size of the input and the first equation holds pixel for pixel.
\<close>

theorem mask_bundle_invariant:
  "paper (build_masks_from_gray L g p)
     = logical_and (filled (build_masks_from_gray L g p))
         (invert (holes (build_masks_from_gray L g p)))
   \<and> logical_and (holes (build_masks_from_gray L g p)) (filled (build_masks_from_gray L g p))
     = holes (build_masks_from_gray L g p)
   \<and> (px (holes (build_masks_from_gray L g p)) x y
        \<and> px (filled (build_masks_from_gray L g p)) x y)
     = px (holes (build_masks_from_gray L g p)) x y
   \<and> (keeps_shape L \<and> rect g \<longrightarrow>
        shape (paper (build_masks_from_gray L g p)) = shape g
        \<and> shape (filled (build_masks_from_gray L g p)) = shape g
        \<and> shape (holes (build_masks_from_gray L g p)) = shape g
        \<and> px (paper (build_masks_from_gray L g p)) x y
            = (px (filled (build_masks_from_gray L g p)) x y
               \<and> \<not> px (holes (build_masks_from_gray L g p)) x y))"
proof -
  define r where "r = build_masks_from_gray L g p"
  have a: "paper r = logical_and (filled r) (invert (holes r))"
    unfolding r_def by (rule paper_build_masks)
  have b: "logical_and (holes r) (filled r) = holes r"
    unfolding r_def by (rule holes_build_masks)
  have "px (logical_and (holes r) (filled r)) x y = (px (holes r) x y \<and> px (filled r) x y)"
    by (rule px_logical_and)
  then have c: "(px (holes r) x y \<and> px (filled r) x y) = px (holes r) x y"
    by (simp only: b)
  have d: "shape (paper r) = shape g \<and> shape (filled r) = shape g \<and> shape (holes r) = shape g
      \<and> px (paper r) x y = (px (filled r) x y \<and> \<not> px (holes r) x y)"
    if k: "keeps_shape L \<and> rect g"
  proof -
    from k have k1: "keeps_shape L" and k2: "rect g" by simp_all
    have s: "shape (filled r) = shape g" "shape (holes r) = shape g" "shape (paper r) = shape g"
      unfolding r_def using shape_build_masks[OF k1 k2, of p] by simp_all
    have "shape (filled r) = shape (holes r)"
      using s by simp
    from px_paper_eq[OF this, of x y]
    have "px (paper r) x y = (px (filled r) x y \<and> \<not> px (holes r) x y)"
      by (simp only: a)
    with s show ?thesis by simp
  qed
  from a b c d show ?thesis unfolding r_def by blast
qed


lemma keeps_shape_plain: "keeps_shape plain_pillow"
  by (simp add: keeps_shape_def plain_pillow_def)

lemma rect_ring: "rect ring_gray"
  by (simp add: rect_def ring_gray_def width_def)

theorem mask_bundle_invariant_witness:
  "keeps_shape plain_pillow \<and> rect ring_gray
   \<and> shape (paper (build_masks_from_gray plain_pillow ring_gray (ring_params 150)))
       = shape ring_gray
   \<and> shape (holes (build_masks_from_gray plain_pillow ring_gray (ring_params 150)))
       = shape ring_gray
   \<and> shape ring_gray = [5, 5, 5, 5, 5]
   \<and> px (filled (build_masks_from_gray plain_pillow ring_gray (ring_params 150))) 2 2
   \<and> px (paper (build_masks_from_gray plain_pillow ring_gray (ring_params 150))) 2 2
       = (px (filled (build_masks_from_gray plain_pillow ring_gray (ring_params 150))) 2 2
          \<and> \<not> px (holes (build_masks_from_gray plain_pillow ring_gray (ring_params 150))) 2 2)"
proof -
  have s: "shape ring_gray = [5, 5, 5, 5, 5]"
    by (simp add: shape_def ring_gray_def)
  have f: "px (filled (build_masks_from_gray plain_pillow ring_gray (ring_params 150))) 2 2"
    unfolding filled_build_masks by code_simp
  have k: "keeps_shape plain_pillow \<and> rect ring_gray"
    using keeps_shape_plain rect_ring by (rule conjI)
  from mask_bundle_invariant[of plain_pillow ring_gray "ring_params 150" 2 2] k s f
  show ?thesis by blast
qed

subsection \<open>Closing is idempotent\<close>

lemma set_offsets: "set (offsets r) = {- int r .. int r}"
proof -
  have e: "set (offsets r) = (\<lambda>i. int i - int r) ` {0..<2 * r + 1}"
    by (simp only: offsets_def set_map set_upt)
  have "d \<in> (\<lambda>i. int i - int r) ` {0..<2 * r + 1}" if "- int r \<le> d" "d \<le> int r" for d
  proof (rule image_eqI[where x="nat (d + int r)"])
    show "d = int (nat (d + int r)) - int r" using that by simp
    show "nat (d + int r) \<in> {0..<2 * r + 1}" using that by auto
  qed
  moreover have "- int r \<le> int i - int r \<and> int i - int r \<le> int r" if "i < 2 * r + 1" for i
    using that by simp
  ultimately show ?thesis unfolding e by fastforce
qed

lemma clamp_index_less: "0 < n \<Longrightarrow> clamp_index n i < n"
  unfolding clamp_index_def by linarith


lemma clamp_index_near:
  assumes "i < n" "- int r \<le> d" "d \<le> int r"
  shows "\<bar>int (clamp_index n (int i + d)) - int i\<bar> \<le> int r"
  using assms unfolding clamp_index_def by linarith

lemma clamp_index_id: "j < n \<Longrightarrow> clamp_index n (int j) = j"
  unfolding clamp_index_def by linarith

lemma nbhd_iff:
  assumes "i < n"
  shows "(j \<in> set (nbhd n r i)) = (j < n \<and> \<bar>int j - int i\<bar> \<le> int r)"
proof
  assume "j \<in> set (nbhd n r i)"
  then obtain d where d: "d \<in> {- int r .. int r}" and j: "j = clamp_index n (int i + d)"
    unfolding nbhd_def set_map set_offsets by blast
  from d have d': "- int r \<le> d" "d \<le> int r" by simp_all
  from assms have "0 < n" by simp
  from clamp_index_less[OF this] clamp_index_near[OF assms d'] j
  show "j < n \<and> \<bar>int j - int i\<bar> \<le> int r" by simp
next
  assume a: "j < n \<and> \<bar>int j - int i\<bar> \<le> int r"
  let ?d = "int j - int i"
  have "?d \<in> set (offsets r)" using a unfolding set_offsets by auto
  moreover have "clamp_index n (int i + ?d) = j" using a clamp_index_id[of j n] by simp
  ultimately show "j \<in> set (nbhd n r i)" unfolding nbhd_def set_map by (metis imageI)
qed

lemma nbhd_sym: "i < n \<Longrightarrow> j < n \<Longrightarrow> (j \<in> set (nbhd n r i)) = (i \<in> set (nbhd n r j))"
  by (simp add: nbhd_iff abs_minus_commute)

lemma nbhd_less: "i < n \<Longrightarrow> j \<in> set (nbhd n r i) \<Longrightarrow> j < n"
  by (simp add: nbhd_iff)

lemma length_tabulate: "length (tabulate w h f) = h"
  by (simp add: tabulate_def)

lemma tabulate_nth: "y < h \<Longrightarrow> x < w \<Longrightarrow> tabulate w h f ! y ! x = f x y"
  by (simp add: tabulate_def)

lemma tabulate_cong:
  "(\<And>x y. x < w \<Longrightarrow> y < h \<Longrightarrow> f x y = g x y) \<Longrightarrow> tabulate w h f = tabulate w h g"
  by (simp add: tabulate_def)

lemma width_tabulate: "0 < h \<Longrightarrow> width (tabulate w h f) = w"
  by (simp add: tabulate_def width_def upt_conv_Cons)

lemma height_tabulate: "height (tabulate w h f) = h"
  by (simp add: tabulate_def height_def)

lemma fold_max_bits:
  "a \<le> 255 \<Longrightarrow>
   fold max (map (\<lambda>b. if b then 255 else 0) bs) (a::nat) = (if list_ex id bs then 255 else a)"
  by (induction bs arbitrary: a) (auto simp: max_def)

lemma fold_min_bits:
  "a \<le> 255 \<Longrightarrow>
   fold min (map (\<lambda>b. if b then 255 else 0) bs) (a::nat) = (if list_all id bs then a else 0)"
  by (induction bs arbitrary: a) (auto simp: min_def)

lemma rect_row: "rect m \<Longrightarrow> y < height m \<Longrightarrow> length (m ! y) = width m"
  by (simp add: rect_def list_all_iff height_def)

lemma convert_L_nth:
  "rect m \<Longrightarrow> y < height m \<Longrightarrow> x < width m \<Longrightarrow>
   convert_L m ! y ! x = (if m ! y ! x then 255 else 0)"
  using rect_row[of m y] by (simp add: convert_L_def height_def)

lemma width_convert_L: "width (convert_L m) = width m"
  by (rule shape_width) (rule shape_convert_L)

lemma height_convert_L: "height (convert_L m) = height m"
  by (rule shape_height) (rule shape_convert_L)

lemma window_convert_L:
  assumes "rect m" "x < width m" "y < height m"
  shows "window (convert_L m) k x y
    = map (\<lambda>b. if b then 255 else 0)
        (concat (map (\<lambda>y'. map (\<lambda>x'. m ! y' ! x') (nbhd (width m) (k div 2) x))
                     (nbhd (height m) (k div 2) y)))"
proof -
  have w: "0 < width m" and h: "0 < height m" using assms by simp_all
  have "convert_L m ! clamp_index (height m) (int y + dy) ! clamp_index (width m) (int x + dx)
      = (if m ! clamp_index (height m) (int y + dy) ! clamp_index (width m) (int x + dx)
         then 255 else 0)" for dx dy
    by (rule convert_L_nth[OF assms(1) clamp_index_less[OF h] clamp_index_less[OF w]])
  then show ?thesis
    by (simp add: window_def nbhd_def width_convert_L height_convert_L map_concat comp_def)
qed

lemma list_ex_concat_map:
  "list_ex id (concat (map (\<lambda>y'. map (\<lambda>x'. P x' y') xs) ys))
   = list_ex (\<lambda>y'. list_ex (\<lambda>x'. P x' y') xs) ys"
  by (auto simp: list_ex_iff)

lemma list_all_concat_map:
  "list_all id (concat (map (\<lambda>y'. map (\<lambda>x'. P x' y') xs) ys))
   = list_all (\<lambda>y'. list_all (\<lambda>x'. P x' y') xs) ys"
  by (auto simp: list_all_iff)

lemma convert_L_tabulate:
  "convert_L (tabulate w h f) = tabulate w h (\<lambda>x y. if f x y then 255 else 0)"
  by (simp add: convert_L_def tabulate_def)

lemma MaxFilter_convert_L:
  assumes "rect m"
  shows "MaxFilter k (convert_L m) = convert_L (dilation (k div 2) m)"
  unfolding MaxFilter_def dilation_def convert_L_tabulate width_convert_L height_convert_L
proof (rule tabulate_cong)
  fix x y assume "x < width m" "y < height m"
  from window_convert_L[OF assms this, of k] fold_max_bits[of 0]
  show "fold max (window (convert_L m) k x y) 0
      = (if list_ex (\<lambda>y'. list_ex (\<lambda>x'. m ! y' ! x') (nbhd (width m) (k div 2) x))
               (nbhd (height m) (k div 2) y) then 255 else 0)"
    by (simp add: list_ex_concat_map)
qed

lemma MinFilter_convert_L:
  assumes "rect m"
  shows "MinFilter k (convert_L m) = convert_L (erosion (k div 2) m)"
  unfolding MinFilter_def erosion_def convert_L_tabulate width_convert_L height_convert_L
proof (rule tabulate_cong)
  fix x y assume "x < width m" "y < height m"
  from window_convert_L[OF assms this, of k] fold_min_bits[of 255]
  show "fold min (window (convert_L m) k x y) 255
      = (if list_all (\<lambda>y'. list_all (\<lambda>x'. m ! y' ! x') (nbhd (width m) (k div 2) x))
               (nbhd (height m) (k div 2) y) then 255 else 0)"
    by (simp add: list_all_concat_map)
qed

lemma point_convert_L: "point (\<lambda>v. v \<ge> 128) (convert_L m) = m"
  by (simp add: point_def convert_L_def comp_def map_idI)

lemma rect_tabulate: "rect (tabulate w h f)"
proof (cases "h = 0")
  case True
  then show ?thesis by (simp add: rect_def tabulate_def)
next
  case False
  then have "width (tabulate w h f) = w" by (simp add: width_tabulate)
  then show ?thesis by (simp add: rect_def list_all_iff) (auto simp: tabulate_def)
qed

lemma apply_closing_morph:
  assumes "rect m" "1 \<le> radius"
  shows "apply_closing m radius = erosion (nat radius) (dilation (nat radius) m)"
proof -
  have k: "nat (2 * radius + 1) div 2 = nat radius" using assms(2) by auto
  have rd: "rect (dilation r m)" for r by (simp add: dilation_def rect_tabulate)
  show ?thesis
    using assms(2)
    by (simp add: apply_closing_def Let_def MaxFilter_convert_L[OF assms(1)]
        MinFilter_convert_L[OF rd] point_convert_L k)
qed

lemma width_tabulate_same: "width (tabulate (width m) (height m) f) = width m"
proof (cases "height m = 0")
  case True
  then show ?thesis by (simp add: tabulate_def width_def height_def)
next
  case False
  then show ?thesis by (simp add: width_tabulate)
qed

lemma width_dilation: "width (dilation r m) = width m"
  by (simp add: dilation_def width_tabulate_same)

lemma height_dilation: "height (dilation r m) = height m"
  by (simp add: dilation_def height_tabulate)

lemma width_erosion: "width (erosion r m) = width m"
  by (simp add: erosion_def width_tabulate_same)

lemma height_erosion: "height (erosion r m) = height m"
  by (simp add: erosion_def height_tabulate)

lemma dilation_nth:
  "x < width m \<Longrightarrow> y < height m \<Longrightarrow>
   dilation r m ! y ! x
   = (\<exists>y' \<in> set (nbhd (height m) r y). \<exists>x' \<in> set (nbhd (width m) r x). m ! y' ! x')"
  by (simp add: dilation_def tabulate_nth list_ex_iff)

lemma erosion_nth:
  "x < width m \<Longrightarrow> y < height m \<Longrightarrow>
   erosion r m ! y ! x
   = (\<forall>y' \<in> set (nbhd (height m) r y). \<forall>x' \<in> set (nbhd (width m) r x). m ! y' ! x')"
  by (simp add: erosion_def tabulate_nth list_all_iff)

lemma erosion_dilation_erosion:
  "erosion r (dilation r (erosion r d)) = erosion r d"
proof -
  let ?w = "width d" and ?h = "height d"
  define c where "c = erosion r d"
  define e where "e = dilation r c"
  have wc: "width c = ?w" and hc: "height c = ?h"
    by (simp_all add: c_def width_erosion height_erosion)
  have we: "width e = ?w" and he: "height e = ?h"
    by (simp_all add: e_def width_dilation height_dilation wc hc)
  have "erosion r e = tabulate ?w ?h (\<lambda>x y.
      list_all (\<lambda>y'. list_all (\<lambda>x'. e ! y' ! x') (nbhd ?w r x)) (nbhd ?h r y))"
    by (simp add: erosion_def we he)
  also have "\<dots> = tabulate ?w ?h (\<lambda>x y.
      list_all (\<lambda>y'. list_all (\<lambda>x'. d ! y' ! x') (nbhd ?w r x)) (nbhd ?h r y))"
  proof (rule tabulate_cong)
    fix x y assume x: "x < ?w" and y: "y < ?h"
    have en: "e ! y' ! x' = (\<exists>y2 \<in> set (nbhd ?h r y'). \<exists>x2 \<in> set (nbhd ?w r x'). c ! y2 ! x2)"
      if "x' < ?w" "y' < ?h" for x' y'
      using dilation_nth[of x' c y' r] that by (simp add: e_def wc hc)
    have cn: "c ! y2 ! x2 = (\<forall>y3 \<in> set (nbhd ?h r y2). \<forall>x3 \<in> set (nbhd ?w r x2). d ! y3 ! x3)"
      if "x2 < ?w" "y2 < ?h" for x2 y2
      using erosion_nth[of x2 d y2 r] that by (simp add: c_def)
    have "(\<forall>y' \<in> set (nbhd ?h r y). \<forall>x' \<in> set (nbhd ?w r x). e ! y' ! x')
        = (\<forall>y' \<in> set (nbhd ?h r y). \<forall>x' \<in> set (nbhd ?w r x). d ! y' ! x')"
    proof
      assume l: "\<forall>y' \<in> set (nbhd ?h r y). \<forall>x' \<in> set (nbhd ?w r x). e ! y' ! x'"
      show "\<forall>y' \<in> set (nbhd ?h r y). \<forall>x' \<in> set (nbhd ?w r x). d ! y' ! x'"
      proof (intro ballI)
        fix y' x' assume ny: "y' \<in> set (nbhd ?h r y)" and nx: "x' \<in> set (nbhd ?w r x)"
        have y': "y' < ?h" and x': "x' < ?w"
          using nbhd_less[OF y ny] nbhd_less[OF x nx] by simp_all
        from l ny nx have "e ! y' ! x'" by blast
        then obtain y2 x2 where n2: "y2 \<in> set (nbhd ?h r y')" "x2 \<in> set (nbhd ?w r x')"
          and c2: "c ! y2 ! x2"
          unfolding en[OF x' y'] by blast
        have y2: "y2 < ?h" and x2: "x2 < ?w"
          using nbhd_less[OF y' n2(1)] nbhd_less[OF x' n2(2)] by simp_all
        have "y' \<in> set (nbhd ?h r y2)" "x' \<in> set (nbhd ?w r x2)"
          using n2 nbhd_sym[OF y' y2] nbhd_sym[OF x' x2] by simp_all
        with c2 show "d ! y' ! x'" unfolding cn[OF x2 y2] by blast
      qed
    next
      assume r: "\<forall>y' \<in> set (nbhd ?h r y). \<forall>x' \<in> set (nbhd ?w r x). d ! y' ! x'"
      then have cxy: "c ! y ! x" unfolding cn[OF x y] .
      show "\<forall>y' \<in> set (nbhd ?h r y). \<forall>x' \<in> set (nbhd ?w r x). e ! y' ! x'"
      proof (intro ballI)
        fix y' x' assume ny: "y' \<in> set (nbhd ?h r y)" and nx: "x' \<in> set (nbhd ?w r x)"
        have y': "y' < ?h" and x': "x' < ?w"
          using nbhd_less[OF y ny] nbhd_less[OF x nx] by simp_all
        have "y \<in> set (nbhd ?h r y')" "x \<in> set (nbhd ?w r x')"
          using ny nx nbhd_sym[OF y y'] nbhd_sym[OF x x'] by simp_all
        with cxy show "e ! y' ! x'" unfolding en[OF x' y'] by blast
      qed
    qed
    then show "list_all (\<lambda>y'. list_all (\<lambda>x'. e ! y' ! x') (nbhd ?w r x)) (nbhd ?h r y)
        = list_all (\<lambda>y'. list_all (\<lambda>x'. d ! y' ! x') (nbhd ?w r x)) (nbhd ?h r y)"
      by (simp add: list_all_iff)
  qed
  also have "\<dots> = erosion r d" by (simp add: erosion_def)
  finally show ?thesis by (simp add: e_def c_def)
qed

lemma rect_apply_closing: "rect m \<Longrightarrow> rect (apply_closing m radius)"
  using shape_apply_closing shape_rect by blast

text \<open>
  C7. For every binary mask and every radius of at least 1, closing twice at the same
  radius equals closing once, pixel for pixel.
\<close>

theorem closing_idempotent:
  assumes "rect m" "1 \<le> radius"
  shows "apply_closing (apply_closing m radius) radius = apply_closing m radius"
proof -
  have "apply_closing (apply_closing m radius) radius
        = erosion (nat radius) (dilation (nat radius) (apply_closing m radius))"
    by (rule apply_closing_morph[OF rect_apply_closing[OF assms(1)] assms(2)])
  also have "\<dots> = erosion (nat radius) (dilation (nat radius)
                      (erosion (nat radius) (dilation (nat radius) m)))"
    by (simp only: apply_closing_morph[OF assms])
  also have "\<dots> = erosion (nat radius) (dilation (nat radius) m)"
    by (rule erosion_dilation_erosion)
  also have "\<dots> = apply_closing m radius"
    by (simp only: apply_closing_morph[OF assms])
  finally show ?thesis .
qed

lemma rect_gap: "rect gap_mask"
  by (simp add: rect_def gap_mask_def width_def)

theorem closing_idempotent_witness:
  "rect gap_mask \<and> (1::int) \<le> 1
   \<and> apply_closing gap_mask 1 = [[True, True, True, False, False]]
   \<and> apply_closing (apply_closing gap_mask 1) 1 = apply_closing gap_mask 1"
proof -
  have o: "(1::int) \<le> 1" by simp
  have c: "apply_closing gap_mask 1 = [[True, True, True, False, False]]" by code_simp
  from closing_idempotent[OF rect_gap o] rect_gap o c show ?thesis by simp
qed

subsection \<open>Threshold monotonicity of the outline\<close>

lemma le_mask_shape: "le_mask a b \<Longrightarrow> shape a = shape b"
  unfolding le_mask_def shape_def
  by (rule nth_equalityI) (auto simp: list_all2_conv_all_nth)

lemma le_mask_nth:
  "le_mask a b \<Longrightarrow> y < length a \<Longrightarrow> x < length (a ! y) \<Longrightarrow> a ! y ! x \<Longrightarrow> b ! y ! x"
  unfolding le_mask_def by (auto simp: list_all2_conv_all_nth)

lemma le_mask_count: "le_mask a b \<Longrightarrow> count_px id a \<le> count_px id b"
proof -
  have row: "length (filter (\<lambda>p. p) r) \<le> length (filter (\<lambda>p. p) s)"
    if "list_all2 (\<lambda>p q. p \<longrightarrow> q) r s" for r s :: "bool list"
    using that by (induction rule: list_all2_induct) auto
  assume "le_mask a b"
  then show ?thesis
    unfolding le_mask_def count_px_def id_def
  proof (induction rule: list_all2_induct)
    case Nil
    then show ?case by simp
  next
    case (Cons x xs y ys)
    from row[OF Cons(1)] Cons(3) show ?case by simp
  qed
qed

lemma le_mask_tabulate:
  "(\<And>x y. x < w \<Longrightarrow> y < h \<Longrightarrow> f x y \<Longrightarrow> g x y) \<Longrightarrow> le_mask (tabulate w h f) (tabulate w h g)"
  unfolding le_mask_def tabulate_def
  by (simp add: list_all2_conv_all_nth)

lemma le_mask_point:
  "(\<And>v. P v \<Longrightarrow> Q v) \<Longrightarrow> le_mask (point P g) (point Q g)"
  unfolding le_mask_def point_def
  by (simp add: list_all2_conv_all_nth)

lemma list_all2_map2:
  assumes "list_all2 P a b" "list_all2 Q c d"
    and "\<And>w x y z. P w x \<Longrightarrow> Q y z \<Longrightarrow> R (f w y) (f x z)"
  shows "list_all2 R (map2 f a c) (map2 f b d)"
  using assms by (auto simp: list_all2_conv_all_nth)

lemma le_mask_or:
  "le_mask a b \<Longrightarrow> le_mask c d \<Longrightarrow> le_mask (logical_or a c) (logical_or b d)"
  unfolding le_mask_def logical_or_def
  by (erule (1) list_all2_map2) (erule (1) list_all2_map2, blast)

lemma le_mask_dilation:
  assumes "le_mask a b" "rect a"
  shows "le_mask (dilation r a) (dilation r b)"
proof -
  note s = le_mask_shape[OF assms(1)]
  have w: "width b = width a" and h: "height b = height a"
    using shape_width[OF s] shape_height[OF s] by simp_all
  show ?thesis
    unfolding dilation_def w h
  proof (rule le_mask_tabulate)
    fix x y assume x: "x < width a" and y: "y < height a"
      and l: "list_ex (\<lambda>y'. list_ex (\<lambda>x'. a ! y' ! x') (nbhd (width a) r x)) (nbhd (height a) r y)"
    then obtain y' x' where n: "y' \<in> set (nbhd (height a) r y)" "x' \<in> set (nbhd (width a) r x)"
      and p: "a ! y' ! x'" by (auto simp: list_ex_iff)
    have y': "y' < height a" and x': "x' < width a"
      using nbhd_less[OF y n(1)] nbhd_less[OF x n(2)] by simp_all
    have "b ! y' ! x'"
      using le_mask_nth[OF assms(1), of y' x'] y' x' rect_row[OF assms(2) y'] p
      by (simp add: height_def)
    with n show "list_ex (\<lambda>y'. list_ex (\<lambda>x'. b ! y' ! x') (nbhd (width a) r x)) (nbhd (height a) r y)"
      by (auto simp: list_ex_iff)
  qed
qed

lemma le_mask_erosion:
  assumes "le_mask a b" "rect a"
  shows "le_mask (erosion r a) (erosion r b)"
proof -
  note s = le_mask_shape[OF assms(1)]
  have w: "width b = width a" and h: "height b = height a"
    using shape_width[OF s] shape_height[OF s] by simp_all
  show ?thesis
    unfolding erosion_def w h
  proof (rule le_mask_tabulate)
    fix x y assume x: "x < width a" and y: "y < height a"
      and l: "list_all (\<lambda>y'. list_all (\<lambda>x'. a ! y' ! x') (nbhd (width a) r x)) (nbhd (height a) r y)"
    have "b ! y' ! x'"
      if n: "y' \<in> set (nbhd (height a) r y)" "x' \<in> set (nbhd (width a) r x)" for y' x'
    proof -
      have y': "y' < height a" and x': "x' < width a"
        using nbhd_less[OF y n(1)] nbhd_less[OF x n(2)] by simp_all
      from l n have "a ! y' ! x'" by (auto simp: list_all_iff)
      then show ?thesis
        using le_mask_nth[OF assms(1), of y' x'] y' x' rect_row[OF assms(2) y']
        by (simp add: height_def)
    qed
    then show "list_all (\<lambda>y'. list_all (\<lambda>x'. b ! y' ! x') (nbhd (width a) r x)) (nbhd (height a) r y)"
      by (auto simp: list_all_iff)
  qed
qed

lemma rect_dilation: "rect (dilation r m)"
  by (simp add: dilation_def rect_tabulate)

lemma le_mask_closing:
  assumes "le_mask a b" "rect a"
  shows "le_mask (apply_closing a radius) (apply_closing b radius)"
proof (cases "1 \<le> radius")
  case True
  have rb: "rect b" using le_mask_shape[OF assms(1)] assms(2) shape_rect by metis
  show ?thesis
    unfolding apply_closing_morph[OF assms(2) True] apply_closing_morph[OF rb True]
    by (intro le_mask_erosion le_mask_dilation assms rect_dilation)
next
  case False
  then show ?thesis using assms(1) by (simp add: apply_closing_def)
qed

lemma outline_build_masks:
  "outline (build_masks_from_gray L g p)
   = logical_or (outline_raw g p) (apply_closing (outline_raw g p) (dilate_px p))"
  by (simp add: build_masks_from_gray_def Let_def)

lemma le_mask_outline_raw:
  "threshold_bg p1 \<le> threshold_bg p2 \<Longrightarrow> le_mask (outline_raw g p1) (outline_raw g p2)"
  unfolding outline_raw_def
  by (rule le_mask_point) (auto simp: clamp_t_bg_def)

text \<open>
  C5, amended. For a fixed grayscale input and a fixed closing radius, increasing \<open>t_bg\<close>
  never decreases the number of foreground pixels of the \<open>outline\<close> mask returned by
  \<open>build_masks_from_gray\<close>, nor of the threshold mask \<open>outline_raw\<close> it is built from: more
  pixels qualify as below the background threshold as \<open>t_bg\<close> rises.
\<close>

theorem outline_count_mono:
  assumes "rect g" "threshold_bg p1 \<le> threshold_bg p2" "dilate_px p1 = dilate_px p2"
  shows "count_px id (outline_raw g p1) \<le> count_px id (outline_raw g p2)
       \<and> count_px id (outline (build_masks_from_gray L g p1))
           \<le> count_px id (outline (build_masks_from_gray L g p2))"
proof -
  note l = le_mask_outline_raw[OF assms(2), of g]
  have r: "rect (outline_raw g p1)"
    using shape_outline_raw assms(1) shape_rect by metis
  have "le_mask (outline (build_masks_from_gray L g p1)) (outline (build_masks_from_gray L g p2))"
    unfolding outline_build_masks assms(3)
    by (intro le_mask_or l le_mask_closing r)
  with l show ?thesis by (simp add: le_mask_count)
qed


theorem outline_count_mono_witness:
  "rect ring_gray
   \<and> threshold_bg (ring_params 150) \<le> threshold_bg (ring_params 250)
   \<and> dilate_px (ring_params 150) = dilate_px (ring_params 250)
   \<and> count_px id (outline_raw ring_gray (ring_params 150)) = 8
   \<and> count_px id (outline_raw ring_gray (ring_params 250)) = 9
   \<and> count_px id (outline (build_masks_from_gray plain_pillow ring_gray (ring_params 150)))
       \<le> count_px id (outline (build_masks_from_gray plain_pillow ring_gray (ring_params 250)))"
proof -
  have h: "threshold_bg (ring_params 150) \<le> threshold_bg (ring_params 250)"
    by (simp add: ring_params_def)
  have d: "dilate_px (ring_params 150) = dilate_px (ring_params 250)"
    by (simp add: ring_params_def)
  have a: "count_px id (outline_raw ring_gray (ring_params 150)) = 8" by code_simp
  have b: "count_px id (outline_raw ring_gray (ring_params 250)) = 9" by code_simp
  from outline_count_mono[OF rect_ring h d, of plain_pillow] rect_ring h d a b
  show ?thesis by simp
qed

subsection \<open>Bridge-width enforcer\<close>

lemma shape_lengths:
  assumes "shape a = shape b"
  shows "length a = length b" and "y < length b \<Longrightarrow> length (a ! y) = length (b ! y)"
proof -
  show l: "length a = length b"
    using assms by (auto simp: shape_def dest: map_eq_imp_length_eq)
  show "length (a ! y) = length (b ! y)" if "y < length b"
    using shape_nth[of y a] shape_nth[of y b] assms l that by simp
qed

lemma np_where_eq:
  assumes c: "shape c = shape a" and b: "shape b = shape a"
    and p: "\<And>x y. y < length a \<Longrightarrow> x < length (a ! y) \<Longrightarrow> \<not> c ! y ! x \<Longrightarrow> b ! y ! x = a ! y ! x"
  shows "np_where c a b = a"
proof (rule nth_equalityI)
  show l: "length (np_where c a b) = length a"
    using shape_lengths(1)[OF c] shape_lengths(1)[OF b] by (simp add: np_where_def)
  fix y assume "y < length (np_where c a b)"
  then have y: "y < length a" using l by simp
  have lc: "length (c ! y) = length (a ! y)" and lb: "length (b ! y) = length (a ! y)"
    using shape_lengths(2)[OF c y] shape_lengths(2)[OF b y] by simp_all
  have row: "np_where c a b ! y
      = map2 (\<lambda>pc (pa, pb). if pc then pa else pb) (c ! y) (zip (a ! y) (b ! y))"
    using y shape_lengths(1)[OF c] shape_lengths(1)[OF b] by (simp add: np_where_def)
  show "np_where c a b ! y = a ! y"
    unfolding row
  proof (rule nth_equalityI)
    show "length (map2 (\<lambda>pc (pa, pb). if pc then pa else pb) (c ! y) (zip (a ! y) (b ! y)))
        = length (a ! y)"
      using lc lb by simp
    fix x assume "x < length (map2 (\<lambda>pc (pa, pb). if pc then pa else pb) (c ! y) (zip (a ! y) (b ! y)))"
    then have x: "x < length (a ! y)" using lc lb by simp
    then show "map2 (\<lambda>pc (pa, pb). if pc then pa else pb) (c ! y) (zip (a ! y) (b ! y)) ! x
        = a ! y ! x"
      using lc lb p[OF y x] by simp
  qed
qed

lemma getpixel_in:
  "y < length img \<Longrightarrow> x < length (img ! y) \<Longrightarrow> getpixel img (int x) (int y) = Some (img ! y ! x)"
  by (simp add: getpixel_def)

lemma dilate_nth:
  "x < width src \<Longrightarrow> y < height src \<Longrightarrow>
   dilate src k ! y ! x
   = (\<exists>j \<in> {0..<length k}. \<exists>i \<in> {0..<length (k ! j)}. k ! j ! i
        \<and> getpixel src (int x + int i - int (width k div 2))
                        (int y + int j - int (height k div 2)) = Some True)"
  by (simp add: dilate_def tabulate_nth list_ex_iff)

lemma shape_dilate: "rect src \<Longrightarrow> shape (dilate src k) = shape src"
  by (simp add: dilate_def shape_tabulate rect_shape)

lemma dilate_centre:
  assumes "px k (width k div 2) (height k div 2)" "rect src" "x < width src" "y < height src"
    "src ! y ! x"
  shows "dilate src k ! y ! x"
proof -
  let ?cw = "width k div 2" and ?ch = "height k div 2"
  from assms(1) have c: "?ch < length k" "?cw < length (k ! ?ch)" "k ! ?ch ! ?cw"
    by (simp_all add: px_def)
  have "getpixel src (int x + int ?cw - int ?cw) (int y + int ?ch - int ?ch) = Some True"
    using getpixel_in[of y src x] assms(2-5) rect_row[OF assms(2,4)]
    by (simp add: height_def)
  with c show ?thesis unfolding dilate_nth[OF assms(3,4)]
    by (intro bexI[of _ ?ch] bexI[of _ ?cw]) simp_all
qed

lemma dilate_centre_back:
  assumes "px k (width k div 2) (height k div 2)" "rect src" "x < width src" "y < height src"
    "\<not> dilate src k ! y ! x"
  shows "\<not> src ! y ! x"
  using dilate_centre[OF assms(1-4)] assms(5) by blast

lemma thin_threshold_pos: "0 < thin_threshold c"
  by (simp add: thin_threshold_def)

lemma point_nth: "y < length img \<Longrightarrow> x < length (img ! y) \<Longrightarrow> point f img ! y ! x = f (img ! y ! x)"
  by (simp add: point_def)

lemma has_bbox_nth: "y < length m \<Longrightarrow> x < length (m ! y) \<Longrightarrow> m ! y ! x \<Longrightarrow> has_bbox m"
  unfolding has_bbox_def list_ex_iff by (metis id_apply nth_mem)

text \<open>
  With a distance transform that gives 0 on the background and a kernel whose centre cell
  is set, \<open>enforce\<close> returns the dilation of the whole mask: whatever the mask, every
  boundary is thickened, not only the thin parts.
\<close>

lemma enforce_dilates_whole_mask:
  fixes C c m
  defines "b \<equiv> point (\<lambda>v. v > 127) m"
  defines "k \<equiv> getStructuringElement C (nat (bridge_radius c * 2 + 1))"
  assumes rect: "rect m"
    and sh: "shape (distanceTransform C b) = shape b"
    and zero: "\<And>x y. x < width m \<Longrightarrow> y < height m \<Longrightarrow> \<not> b ! y ! x
                 \<Longrightarrow> distanceTransform C b ! y ! x = 0"
    and centre: "px k (width k div 2) (height k div 2)"
    and bg: "x0 < width m" "y0 < height m" "\<not> b ! y0 ! x0"
  shows "enforce C c (Some m) = Inr (convert_L (dilate b k))"
proof -
  define dist where "dist = distanceTransform C b"
  define thin where "thin = point (\<lambda>dv. dv < thin_threshold c) dist"
  have sb: "shape b = shape m" by (simp add: b_def shape_point)
  have rb: "rect b" using sb rect by (rule shape_rect)
  have wb: "width b = width m" and hb: "height b = height m"
    using shape_width[OF sb] shape_height[OF sb] by simp_all
  have st: "shape thin = shape b" by (simp add: thin_def shape_point dist_def sh)
  have rt: "rect thin" using st rb by (rule shape_rect)
  have wt: "width thin = width m" and ht: "height thin = height m"
    using shape_width[OF st] shape_height[OF st] wb hb by simp_all
  have sd: "shape dist = shape m" by (simp add: dist_def sh sb)
  have ld: "length dist = height m" "\<And>y. y < height m \<Longrightarrow> length (dist ! y) = width m"
    using shape_lengths[OF sd] rect_row[OF rect] by (simp_all add: height_def)
  have thin_nth: "thin ! y ! x = (dist ! y ! x < thin_threshold c)"
    if "x < width m" "y < height m" for x y
    unfolding thin_def using that ld by (simp add: point_nth)
  have lt: "length thin = height m" "\<And>y. y < height m \<Longrightarrow> length (thin ! y) = width m"
    using ht rect_row[OF rt] wt by (simp_all add: height_def)
  have "thin ! y0 ! x0"
    using thin_nth[OF bg(1,2)] zero[OF bg] thin_threshold_pos[of c] by (simp add: dist_def)
  then have hb': "has_bbox thin"
    using has_bbox_nth[of y0 thin x0] lt bg by simp
  have nw: "np_where (dilate thin k) (dilate b k) b = dilate b k"
  proof (rule np_where_eq)
    show "shape (dilate thin k) = shape (dilate b k)"
      by (simp add: shape_dilate rt rb st)
    show "shape b = shape (dilate b k)" by (simp add: shape_dilate rb)
    fix x y assume y: "y < length (dilate b k)" and x: "x < length (dilate b k ! y)"
      and n: "\<not> dilate thin k ! y ! x"
    have y': "y < height m"
      using y shape_lengths(1)[OF shape_dilate[OF rb, of k]] hb by (simp add: height_def)
    have x': "x < width m"
      using x y' shape_lengths(2)[OF shape_dilate[OF rb, of k], of y] rect_row[OF rb, of y] hb wb
      by (simp add: height_def)
    have "\<not> thin ! y ! x"
      using dilate_centre_back[OF centre rt _ _ n] x' y' wt ht by simp
    then have "b ! y ! x"
      using thin_nth[OF x' y'] zero[OF x' y'] thin_threshold_pos[of c] by (auto simp: dist_def)
    moreover from this have "dilate b k ! y ! x"
      using dilate_centre[OF centre rb] x' y' wb hb by simp
    ultimately show "b ! y ! x = dilate b k ! y ! x" by simp
  qed
  show ?thesis
    using hb' nw
    by (simp add: enforce_def Let_def b_def[symmetric] dist_def[symmetric] thin_def[symmetric]
        k_def[symmetric])
qed

lemma square_zero:
  "x < width square_mask \<Longrightarrow> y < height square_mask \<Longrightarrow>
   \<not> point (\<lambda>v. v > 127) square_mask ! y ! x \<Longrightarrow> square_dist ! y ! x = 0"
proof -
  assume "x < width square_mask" "y < height square_mask"
  then have "x \<in> {0, 1, 2, 3, 4}" "y \<in> {0, 1, 2, 3, 4}"
    by (auto simp: width_def height_def square_mask_def)
  moreover assume "\<not> point (\<lambda>v. v > 127) square_mask ! y ! x"
  ultimately show ?thesis
    by (auto simp: square_mask_def square_dist_def point_def)
qed

lemma rect_square: "rect square_mask"
  by (simp add: rect_def square_mask_def width_def)

lemma enforce_dilates_square:
  "enforce square_cv2 square_cfg (Some square_mask)
   = Inr (convert_L (dilate (point (\<lambda>v. v > 127) square_mask) ellipse3))"
proof -
  have k: "getStructuringElement square_cv2 (nat (bridge_radius square_cfg * 2 + 1)) = ellipse3"
    by (simp add: square_cv2_def)
  have d: "distanceTransform square_cv2 b = square_dist" for b
    by (simp add: square_cv2_def)
  have c: "px ellipse3 (width ellipse3 div 2) (height ellipse3 div 2)"
    by (simp add: px_def ellipse3_def width_def height_def)
  have s: "shape square_dist = shape (point (\<lambda>v. v > 127) square_mask)"
    by (simp add: shape_def square_dist_def square_mask_def point_def)
  have z: "\<not> point (\<lambda>v. v > 127) square_mask ! 0 ! 0"
    by (simp add: square_mask_def point_def)
  have w: "0 < width square_mask" "0 < height square_mask"
    by (simp_all add: width_def height_def square_mask_def)
  from enforce_dilates_whole_mask[of square_mask square_cv2 square_cfg 0 0,
      unfolded k d, OF rect_square s square_zero c w z]
  show ?thesis .
qed

text \<open>
  C4. On a mask whose only foreground is a solid 3 \<times> 3 square, at 50 dpi (minimum bridge
  2 pixels, thin threshold 1.0), no foreground pixel is below the thin threshold, yet
  enforcement does not return the square unchanged: the background pixels count as thin,
  the region of interest covers the whole boundary and the result is the square dilated by
  the kernel.
\<close>

theorem enforce_fattens_solid_square:
  "min_bridge_px square_cfg = 2 \<and> bridge_radius square_cfg = 1 \<and> thin_threshold square_cfg = 1
   \<and> logical_and (point (\<lambda>v. v > 127) square_mask)
         (point (\<lambda>dv. dv < thin_threshold square_cfg) square_dist) = new_image 5 5 False
   \<and> enforce square_cv2 square_cfg (Some square_mask) =
       Inr [[0, 255, 255, 255, 0],
            [255, 255, 255, 255, 255],
            [255, 255, 255, 255, 255],
            [255, 255, 255, 255, 255],
            [0, 255, 255, 255, 0]]"
  by code_simp

subsection \<open>Unit conversion\<close>

lemma py_round_of_int: "py_round (of_int n) = n"
  by (simp add: py_round_def)

text \<open>
  For every positive dpi and every length that is not negative the round trip stays
  within half a pixel.
\<close>

lemma py_round_error: "\<bar>of_int (py_round x) - x\<bar> \<le> 1 / 2"
proof -
  have "of_int \<lfloor>x\<rfloor> \<le> x" "x < of_int \<lfloor>x\<rfloor> + 1" by linarith+
  then show ?thesis
    unfolding py_round_def Let_def by (auto split: if_splits)
qed

lemma half_pixel_bound:
  assumes "\<bar>u\<bar> \<le> 1 / 2" "0 < (M::real)" "0 < (d::real)"
  shows "\<bar>u * M / d\<bar> \<le> M / (2 * d)"
proof -
  have "\<bar>u * M / d\<bar> = \<bar>u\<bar> * M / d" using assms(2,3) by (simp add: abs_mult)
  also have "\<dots> \<le> (1 / 2) * M / d"
    using assms by (intro divide_right_mono mult_right_mono) simp_all
  finally show ?thesis by simp
qed

lemma roundtrip_half_pixel:
  assumes "0 < dp" "0 \<le> mm"
  shows "\<bar>px_to_mm (mm_to_px mm dp) dp - mm\<bar> \<le> MM_PER_INCH / (2 * of_int dp)"
proof -
  define t where "t = mm * of_int dp / MM_PER_INCH"
  define p where "p = py_round t"
  have dd: "0 < (of_int dp :: real)" using assms(1) by simp
  have M: "0 < MM_PER_INCH" by (simp add: MM_PER_INCH_def)
  have mm: "mm = t * MM_PER_INCH / of_int dp"
    using dd M by (simp add: t_def)
  have e: "\<bar>of_int p - t\<bar> \<le> 1 / 2" unfolding p_def by (rule py_round_error)
  have px: "mm_to_px mm dp = p" by (simp add: mm_to_px_def p_def t_def)
  have t0: "0 \<le> t" using assms dd M by (simp add: t_def)
  show ?thesis
  proof (cases "p \<le> 0")
    case True
    then have "(of_int p :: real) \<le> 0" by simp
    with e t0 have "\<bar>- t\<bar> \<le> 1 / 2" by linarith
    from half_pixel_bound[OF this M dd]
    have "\<bar>0 - mm\<bar> \<le> MM_PER_INCH / (2 * of_int dp)" by (simp add: mm)
    then show ?thesis using True by (simp add: px px_to_mm_def)
  next
    case False
    then have "px_to_mm p dp - mm = (of_int p - t) * MM_PER_INCH / of_int dp"
      using assms(1) dd by (simp add: px_to_mm_def mm field_simps)
    with half_pixel_bound[OF e M dd] show ?thesis by (simp add: px)
  qed
qed

text \<open>
  C6. For every dpi in {150, 300, 600} and every length in {0, 1, 10, 210, 297} mm,
  converting to pixels and back gives a length that differs from the original by at most
  one pixel, that is by at most \<open>1 / dpi * 25.4\<close> mm.
\<close>

theorem mm_px_roundtrip:
  "\<forall>dpi \<in> {150, 300, 600}. \<forall>mm \<in> {0, 1, 10, 210, 297}.
     \<bar>px_to_mm (mm_to_px mm dpi) dpi - mm\<bar> \<le> 1 / of_int dpi * MM_PER_INCH"
  by (simp add: px_to_mm_def mm_to_px_def py_round_def MM_PER_INCH_def Let_def)

theorem mm_px_roundtrip_witness:
  "(300::int) \<in> {150, 300, 600} \<and> (10::real) \<in> {0, 1, 10, 210, 297} \<and>
   mm_to_px 10 300 = 118 \<and>
   \<bar>px_to_mm (mm_to_px 10 300) 300 - 10\<bar> \<le> 1 / of_int 300 * MM_PER_INCH"
proof -
  have d: "(300::int) \<in> {150, 300, 600}" by simp
  have m: "(10::real) \<in> {0, 1, 10, 210, 297}" by simp
  have px: "mm_to_px 10 300 = 118"
    by (simp add: mm_to_px_def py_round_def MM_PER_INCH_def Let_def)
  from mm_px_roundtrip d m
  have "\<bar>px_to_mm (mm_to_px 10 300) 300 - 10\<bar> \<le> 1 / of_int 300 * MM_PER_INCH"
    by blast
  with d m px show ?thesis by blast
qed

subsection \<open>Scale-adaptive radius\<close>

lemma scale_radius_nonpositive: "base \<le> 0 \<Longrightarrow> scale_radius base s e c = 0"
  by (simp add: scale_radius_def)

lemma scale_radius_floor: "0 < base \<Longrightarrow> 1 \<le> scale_radius base s e c"
  by (simp add: scale_radius_def Let_def)

lemma scale_radius_ceiling: "0 < base \<Longrightarrow> scale_radius base s e (Some k) \<le> max 1 k"
  by (simp add: scale_radius_def Let_def)

text \<open>
  C8. For every base radius, scale factor, exponent and optional clamp, \<open>scale_radius\<close>
  returns the rounded product \<open>base * max(scaleFactor, 1) ^ exponent\<close>, clamped to the
  ceiling when one is given, floored at 1 if the base is positive, and 0 if the base is
  not positive.
\<close>

theorem scale_radius_formula:
  "scale_radius base scaleFactor exponent ceiling_opt =
   ScaleRadius_spec base scaleFactor exponent ceiling_opt"
  by (simp add: scale_radius_def ScaleRadius_spec_def Let_def)

end
